theory Spec2Isabelle
  imports Complex_Main "HOL-Library.Word" "HOL-Library.Log_Nat"
begin

unbundle bit_operations_syntax

section \<open>Machine arithmetic of the Go source\<close>

text \<open>
  The histogram of \<^verbatim>\<open>hdr.go\<close> works on \<^verbatim>\<open>int64\<close> and \<^verbatim>\<open>int32\<close> values. They are modelled
  as mathematical integers; every operation that can leave the range of its Go type is
  followed by the two's complement wrap-around of that type.
\<close>

definition s64 :: "int \<Rightarrow> int" where
  "s64 x = signed_take_bit 63 x"

definition s32 :: "int \<Rightarrow> int" where
  "s32 x = signed_take_bit 31 x"

text \<open>
  \<^verbatim>\<open>x << uint(k)\<close> and \<^verbatim>\<open>x >> uint(k)\<close>. The shift count is converted to the unsigned
  64-bit \<^verbatim>\<open>uint\<close> first, so a negative \<open>k\<close> is a huge count. Go shifts a value out
  completely when the count reaches the width of the left operand.
\<close>

definition shl64 :: "int \<Rightarrow> int \<Rightarrow> int" where
  "shl64 x k = (let n = k mod 2 ^ 64 in if 64 \<le> n then 0 else s64 (x * 2 ^ nat n))"

definition shl32 :: "int \<Rightarrow> int \<Rightarrow> int" where
  "shl32 x k = (let n = k mod 2 ^ 64 in if 32 \<le> n then 0 else s32 (x * 2 ^ nat n))"

definition shr64 :: "int \<Rightarrow> int \<Rightarrow> int" where
  "shr64 x k = (let n = k mod 2 ^ 64 in
     if 64 \<le> n then (if x < 0 then - 1 else 0) else x div 2 ^ nat n)"

section \<open>The histogram\<close>

record Histogram =
  lowestTrackableValue :: int
  highestTrackableValue :: int
  unitMagnitude :: int
  significantFigures :: int
  subBucketHalfCountMagnitude :: int
  subBucketHalfCount :: int
  subBucketMask :: int
  subBucketCount :: int
  bucketCount :: int
  countsLen :: int
  totalCount :: int
  counts :: "int list"

datatype error = ValueTooLarge int

text \<open>
  \<^verbatim>\<open>bitLen\<close>: the loop strips 16 bits at a time, the four tests after it finish the
  count (\<open>bitLen_tail\<close> is the test against \<^verbatim>\<open>0x80\<close> and what follows it, and so on down
  to \<open>bitLen_tail1\<close>, the last test).
\<close>

definition bitLen_tail1 :: "int \<Rightarrow> int \<Rightarrow> int" where
  "bitLen_tail1 x n = (if 1 \<le> x then n + 1 else n)"

definition bitLen_tail2 :: "int \<Rightarrow> int \<Rightarrow> int" where
  "bitLen_tail2 x n = (if 2 \<le> x then bitLen_tail1 (x div 2 ^ 2) (n + 2) else bitLen_tail1 x n)"

definition bitLen_tail4 :: "int \<Rightarrow> int \<Rightarrow> int" where
  "bitLen_tail4 x n = (if 8 \<le> x then bitLen_tail2 (x div 2 ^ 4) (n + 4) else bitLen_tail2 x n)"

definition bitLen_tail :: "int \<Rightarrow> int \<Rightarrow> int" where
  "bitLen_tail x n = (if 128 \<le> x then bitLen_tail4 (x div 2 ^ 8) (n + 8) else bitLen_tail4 x n)"

function bitLen_loop :: "int \<Rightarrow> int \<Rightarrow> int" where
  "bitLen_loop x n = (if 32768 \<le> x then bitLen_loop (x div 2 ^ 16) (n + 16) else bitLen_tail x n)"
  by pat_completeness auto
termination
  by (relation "measure (\<lambda>(x, n). nat x)") auto

declare bitLen_loop.simps [simp del]

definition bitLen :: "int \<Rightarrow> int" where
  "bitLen x = bitLen_loop x 0"

subsection \<open>Index arithmetic\<close>

definition countsIndex :: "Histogram \<Rightarrow> int \<Rightarrow> int \<Rightarrow> int" where
  "countsIndex h bucketIdx subBucketIdx =
    (let bucketBaseIdx = shl32 (s32 (bucketIdx + 1)) (subBucketHalfCountMagnitude h);
         offsetInBucket = s32 (subBucketIdx - subBucketHalfCount h)
     in s32 (bucketBaseIdx + offsetInBucket))"

definition getBucketIndex :: "Histogram \<Rightarrow> int \<Rightarrow> int" where
  "getBucketIndex h v =
    (let pow2Ceiling = bitLen (v OR subBucketMask h)
     in s32 (s64 (s64 (pow2Ceiling - unitMagnitude h)
                  - s32 (subBucketHalfCountMagnitude h + 1))))"

definition getSubBucketIdx :: "Histogram \<Rightarrow> int \<Rightarrow> int \<Rightarrow> int" where
  "getSubBucketIdx h v idx = s32 (shr64 v (s64 (idx + unitMagnitude h)))"

definition countsIndexFor :: "Histogram \<Rightarrow> int \<Rightarrow> int" where
  "countsIndexFor h v =
    (let bucketIdx = getBucketIndex h v;
         subBucketIdx = getSubBucketIdx h v bucketIdx
     in countsIndex h bucketIdx subBucketIdx)"

definition valueFromIndex :: "Histogram \<Rightarrow> int \<Rightarrow> int \<Rightarrow> int" where
  "valueFromIndex h bucketIdx subBucketIdx = shl64 subBucketIdx (s64 (bucketIdx + unitMagnitude h))"

definition sizeOfEquivalentValueRange :: "Histogram \<Rightarrow> int \<Rightarrow> int" where
  "sizeOfEquivalentValueRange h v =
    (let bucketIdx = getBucketIndex h v;
         subBucketIdx = getSubBucketIdx h v bucketIdx;
         adjustedBucket = (if subBucketCount h \<le> subBucketIdx then s32 (bucketIdx + 1) else bucketIdx)
     in shl64 1 (s64 (unitMagnitude h + adjustedBucket)))"

definition lowestEquivalentValue :: "Histogram \<Rightarrow> int \<Rightarrow> int" where
  "lowestEquivalentValue h v =
    (let bucketIdx = getBucketIndex h v;
         subBucketIdx = getSubBucketIdx h v bucketIdx
     in valueFromIndex h bucketIdx subBucketIdx)"

definition nextNonEquivalentValue :: "Histogram \<Rightarrow> int \<Rightarrow> int" where
  "nextNonEquivalentValue h v = s64 (lowestEquivalentValue h v + sizeOfEquivalentValueRange h v)"

definition highestEquivalentValue :: "Histogram \<Rightarrow> int \<Rightarrow> int" where
  "highestEquivalentValue h v = s64 (nextNonEquivalentValue h v - 1)"

subsection \<open>Recording\<close>

text \<open>
  A call either returns or it does not (a run-time panic, a loop that never ends): the
  result is an \<open>option\<close>, \<open>None\<close> for a call that does not return. A call that returns
  hands back the histogram as the call left it, and the Go \<^verbatim>\<open>error\<close> (\<open>None\<close> for
  \<^verbatim>\<open>nil\<close>). Indexing \<^verbatim>\<open>h.counts\<close> outside the slice panics.
\<close>

definition RecordValues :: "Histogram \<Rightarrow> int \<Rightarrow> int \<Rightarrow> (Histogram \<times> error option) option" where
  "RecordValues h v n =
    (let idx = countsIndexFor h v in
     if idx < 0 \<or> countsLen h \<le> idx then Some (h, Some (ValueTooLarge v))
     else if int (length (counts h)) \<le> idx then None
     else Some (h\<lparr>counts := (counts h)[nat idx := s64 (counts h ! nat idx + n)],
                  totalCount := s64 (totalCount h + n)\<rparr>, None))"

definition RecordValue :: "Histogram \<Rightarrow> int \<Rightarrow> (Histogram \<times> error option) option" where
  "RecordValue h v = RecordValues h v 1"

definition Reset :: "Histogram \<Rightarrow> Histogram" where
  "Reset h = h\<lparr>totalCount := 0, counts := map (\<lambda>_. 0) (counts h)\<rparr>"

text \<open>
  \<^verbatim>\<open>RecordCorrectedValue\<close>: the loop that fills in the missing samples, then the method.
  The loop is entered with \<^verbatim>\<open>missingValue = v - expectedInterval\<close>.
\<close>

partial_function (option) RecordCorrectedValue_loop ::
  "Histogram \<Rightarrow> int \<Rightarrow> int \<Rightarrow> (Histogram \<times> error option) option" where
  "RecordCorrectedValue_loop h missingValue expectedInterval =
    (if expectedInterval \<le> missingValue then
       (case RecordValue h missingValue of
          None \<Rightarrow> None
        | Some (h', err) \<Rightarrow>
            if err \<noteq> None then Some (h', err)
            else RecordCorrectedValue_loop h' (s64 (missingValue - expectedInterval)) expectedInterval)
     else Some (h, None))"

declare RecordCorrectedValue_loop.simps [code]

definition RecordCorrectedValue ::
  "Histogram \<Rightarrow> int \<Rightarrow> int \<Rightarrow> (Histogram \<times> error option) option" where
  "RecordCorrectedValue h v expectedInterval =
    (case RecordValue h v of
       None \<Rightarrow> None
     | Some (h1, err) \<Rightarrow>
         if err \<noteq> None then Some (h1, err)
         else if expectedInterval \<le> 0 \<or> v \<le> expectedInterval then Some (h1, None)
         else RecordCorrectedValue_loop h1 (s64 (v - expectedInterval)) expectedInterval)"

subsection \<open>Construction\<close>

function power_go :: "int \<Rightarrow> int \<Rightarrow> int \<Rightarrow> int" where
  "power_go base ex n = (if 0 < ex then power_go base (ex - 1) (s64 (n * base)) else n)"
  by pat_completeness auto
termination
  by (relation "measure (\<lambda>(base, ex, n). nat ex)") auto

declare power_go.simps [simp del]

text \<open>
  \<^verbatim>\<open>New\<close> derives two magnitudes in floating point. The model takes the mathematical
  value of both expressions:
  \<^item> \<^verbatim>\<open>int32(math.Ceil(float64(a / b)))\<close> with \<^verbatim>\<open>a / b\<close> the \<^verbatim>\<open>float32\<close> quotient of the
    logarithms of \<^verbatim>\<open>2 * 10^sigfigs\<close> and of 2 is \<open>ceil_log2\<close>, the least \<open>k\<close> with
    \<open>x \<le> 2 ^ k\<close>. The five admitted arguments are 20, 200, 2000, 20000 and 200000,
    whose binary logarithms 4.32, 7.64, 10.97, 14.29 and 17.61 are far from an integer.
  \<^item> \<^verbatim>\<open>int32(math.Floor(math.Log(float64(minValue)) / math.Log(2)))\<close> is \<open>floor_log2\<close>,
    which is negative for \<open>minValue \<le> 0\<close> as the converted infinity or NaN is on amd64.
  \<^verbatim>\<open>math.Pow(2, n)\<close> is exact on the small integers it is applied to.
\<close>

definition ceil_log2 :: "int \<Rightarrow> int" where
  "ceil_log2 x = bitlen (x - 1)"

definition floor_log2 :: "int \<Rightarrow> int" where
  "floor_log2 x = bitlen x - 1"

text \<open>
  The loop of \<^verbatim>\<open>New\<close> that counts the buckets. It doubles \<^verbatim>\<open>trackableValue\<close> in
  \<^verbatim>\<open>int64\<close> until it reaches \<^verbatim>\<open>maxValue\<close>; nothing in the source bounds the number of turns.
\<close>

partial_function (option) bucketsNeeded_loop :: "int \<Rightarrow> int \<Rightarrow> int \<Rightarrow> int option" where
  "bucketsNeeded_loop maxValue trackableValue bucketsNeeded =
    (if trackableValue < maxValue
     then bucketsNeeded_loop maxValue (shl64 trackableValue 1) (s32 (bucketsNeeded + 1))
     else Some bucketsNeeded)"

declare bucketsNeeded_loop.simps [code]

definition New :: "int \<Rightarrow> int \<Rightarrow> int \<Rightarrow> Histogram option" where
  "New minValue maxValue sigfigs =
    (if sigfigs < 1 \<or> 5 < sigfigs then None
     else
       let largestValueWithSingleUnitResolution = s64 (2 * power_go 10 sigfigs 1);
           subBucketCountMagnitude = ceil_log2 largestValueWithSingleUnitResolution;
           shm = s32 ((if subBucketCountMagnitude < 1 then 1 else subBucketCountMagnitude) - 1);
           um = (if floor_log2 minValue < 0 then 0 else floor_log2 minValue);
           sbc = 2 ^ nat (shm + 1);
           shc = sbc div 2;
           mask = shl64 (s32 (sbc - 1)) um
       in case bucketsNeeded_loop maxValue (s32 (sbc - 1)) 1 of
            None \<Rightarrow> None
          | Some bucketsNeeded \<Rightarrow>
              let len = s32 (s32 (bucketsNeeded + 1) * (sbc div 2))
              in if len < 0 then None
                 else Some \<lparr>lowestTrackableValue = minValue,
                            highestTrackableValue = maxValue,
                            unitMagnitude = um,
                            significantFigures = sigfigs,
                            subBucketHalfCountMagnitude = shm,
                            subBucketHalfCount = shc,
                            subBucketMask = mask,
                            subBucketCount = sbc,
                            bucketCount = bucketsNeeded,
                            countsLen = len,
                            totalCount = 0,
                            counts = replicate (nat len) 0\<rparr>)"

subsection \<open>Iteration\<close>

record iterator =
  bucketIdx :: int
  subBucketIdx :: int
  countAtIdx :: int
  countToIdx :: int
  valueFromIdx :: int
  highestEquivalentValue_it :: int

text \<open>
  The Go iterator holds a pointer to its histogram and reads it at every step; here each
  step is given the histogram as it is at that moment.
\<close>

definition new_iterator :: iterator where
  "new_iterator = \<lparr>bucketIdx = 0, subBucketIdx = - 1, countAtIdx = 0, countToIdx = 0,
                    valueFromIdx = 0, highestEquivalentValue_it = 0\<rparr>"

definition getCountAtIndex :: "Histogram \<Rightarrow> int \<Rightarrow> int \<Rightarrow> int option" where
  "getCountAtIndex h b s =
    (let idx = countsIndex h b s
     in if 0 \<le> idx \<and> idx < int (length (counts h)) then Some (counts h ! nat idx) else None)"

text \<open>The block of \<^verbatim>\<open>iterator.next\<close> under the comment \<^verbatim>\<open>increment bucket\<close>.\<close>

definition iterator_increment :: "Histogram \<Rightarrow> iterator \<Rightarrow> iterator" where
  "iterator_increment h i =
    (let sub1 = s32 (subBucketIdx i + 1)
     in if subBucketCount h \<le> sub1
        then i\<lparr>subBucketIdx := subBucketHalfCount h, bucketIdx := s32 (bucketIdx i + 1)\<rparr>
        else i\<lparr>subBucketIdx := sub1\<rparr>)"

definition iterator_next :: "Histogram \<Rightarrow> iterator \<Rightarrow> (bool \<times> iterator) option" where
  "iterator_next h i =
    (if totalCount h \<le> countToIdx i then Some (False, i)
     else
       let i1 = iterator_increment h i
       in if bucketCount h \<le> bucketIdx i1 then Some (False, i1)
          else
            (case getCountAtIndex h (bucketIdx i1) (subBucketIdx i1) of
               None \<Rightarrow> None
             | Some c \<Rightarrow>
                 let v = valueFromIndex h (bucketIdx i1) (subBucketIdx i1)
                 in Some (True, i1\<lparr>countAtIdx := c,
                                    countToIdx := s64 (countToIdx i1 + c),
                                    valueFromIdx := v,
                                    highestEquivalentValue_it := highestEquivalentValue h v\<rparr>)))"

subsection \<open>Min\<close>

partial_function (option) Min_loop :: "Histogram \<Rightarrow> iterator \<Rightarrow> int \<Rightarrow> int option" where
  "Min_loop h i minv =
    (case iterator_next h i of
       None \<Rightarrow> None
     | Some (ok, i') \<Rightarrow>
         if ok then
           (if countAtIdx i' \<noteq> 0 \<and> minv = 0 then Some (highestEquivalentValue_it i')
            else Min_loop h i' minv)
         else Some minv)"

declare Min_loop.simps [code]

definition Min_go :: "Histogram \<Rightarrow> int option" where
  "Min_go h = map_option (lowestEquivalentValue h) (Min_loop h new_iterator 0)"

subsection \<open>Quantiles\<close>

text \<open>
  \<^verbatim>\<open>ValueAtQuantile\<close> computes the count to reach in \<^verbatim>\<open>float64\<close>. A finite \<^verbatim>\<open>float64\<close> is
  modelled by the rational number it denotes. Each IEEE 754 operation returns the exact
  result rounded to the nearest value with a 53 bit significand, a tie going to the even
  significand: \<open>f64_round\<close>. Below \<open>2\<^sup>-\<^sup>1\<^sup>0\<^sup>2\<^sup>2\<close> the spacing stays that of the
  subnormal numbers. (Overflow to an infinity needs magnitudes of \<open>2\<^sup>1\<^sup>0\<^sup>2\<^sup>4\<close>, which the
  products of a quantile of at most 100 with a 64 bit count do not reach.)
\<close>

definition round_half_even :: "rat \<Rightarrow> int" where
  "round_half_even x =
    (let f = \<lfloor>x\<rfloor>; d = x - of_int f
     in if d < 1 / 2 then f else if 1 / 2 < d then f + 1 else if even f then f else f + 1)"

definition f64_exponent :: "rat \<Rightarrow> int" where
  "f64_exponent x =
    (let (a, b) = quotient_of \<bar>x\<bar>; k = bitlen a - bitlen b
     in if 2 powi k \<le> \<bar>x\<bar> then k else k - 1)"

definition f64_round :: "rat \<Rightarrow> rat" where
  "f64_round x =
    (if x = 0 then 0
     else let e = max (f64_exponent x) (- 1022); u = 2 powi (e - 52)
          in of_int (round_half_even (x / u)) * u)"

text \<open>
  \<^verbatim>\<open>int64(x)\<close> truncates towards zero. For a value outside \<^verbatim>\<open>int64\<close> the Go specification
  leaves the result to the implementation; amd64 yields the least \<^verbatim>\<open>int64\<close>.
\<close>

definition int64_of_f64 :: "rat \<Rightarrow> int" where
  "int64_of_f64 x =
    (let t = (if 0 \<le> x then \<lfloor>x\<rfloor> else \<lceil>x\<rceil>)
     in if - (2 ^ 63) \<le> t \<and> t < 2 ^ 63 then t else - (2 ^ 63))"

partial_function (option) ValueAtQuantile_loop ::
  "Histogram \<Rightarrow> int \<Rightarrow> iterator \<Rightarrow> int \<Rightarrow> int option" where
  "ValueAtQuantile_loop h countAtPercentile i tot =
    (case iterator_next h i of
       None \<Rightarrow> None
     | Some (ok, i') \<Rightarrow>
         if ok then
           (let tot' = s64 (tot + countAtIdx i')
            in if countAtPercentile \<le> tot'
               then Some (highestEquivalentValue h (valueFromIdx i'))
               else ValueAtQuantile_loop h countAtPercentile i' tot')
         else Some 0)"

declare ValueAtQuantile_loop.simps [code]

definition ValueAtQuantile :: "Histogram \<Rightarrow> rat \<Rightarrow> int option" where
  "ValueAtQuantile h q0 =
    (let q = (if 100 < q0 then 100 else q0);
         countAtPercentile =
           int64_of_f64 (f64_round (f64_round (f64_round (q / 100)
                                               * f64_round (of_int (totalCount h))) + 1 / 2))
     in ValueAtQuantile_loop h countAtPercentile new_iterator 0)"

subsection \<open>Merge\<close>

text \<open>
  \<^verbatim>\<open>h.Merge(from)\<close> takes two pointers, which may be the same histogram. The histograms
  live in a store; the iterator over \<^verbatim>\<open>from\<close> reads the store at every step, and every
  recording writes \<^verbatim>\<open>h\<close> back to it. Dereferencing an address that holds no histogram
  does not return.
\<close>

type_synonym store = "nat \<Rightarrow> Histogram option"

record rIterator =
  iterator_r :: iterator
  countAddedThisStep :: int

definition new_rIterator :: rIterator where
  "new_rIterator = \<lparr>iterator_r = new_iterator, countAddedThisStep = 0\<rparr>"

partial_function (option) rIterator_next :: "Histogram \<Rightarrow> rIterator \<Rightarrow> (bool \<times> rIterator) option" where
  "rIterator_next h r =
    (case iterator_next h (iterator_r r) of
       None \<Rightarrow> None
     | Some (ok, i') \<Rightarrow>
         if ok then
           (if countAtIdx i' \<noteq> 0
            then Some (True, \<lparr>iterator_r = i', countAddedThisStep = countAtIdx i'\<rparr>)
            else rIterator_next h (r\<lparr>iterator_r := i'\<rparr>))
         else Some (False, r\<lparr>iterator_r := i'\<rparr>))"

declare rIterator_next.simps [code]

partial_function (option) Merge_loop ::
  "store \<Rightarrow> nat \<Rightarrow> nat \<Rightarrow> rIterator \<Rightarrow> int \<Rightarrow> (store \<times> int) option" where
  "Merge_loop st hp fp i dropped =
    (case st fp of
       None \<Rightarrow> None
     | Some from \<Rightarrow>
         (case rIterator_next from i of
            None \<Rightarrow> None
          | Some (ok, i') \<Rightarrow>
              if ok then
                (let v = valueFromIdx (iterator_r i'); c = countAtIdx (iterator_r i')
                 in case st hp of
                      None \<Rightarrow> None
                    | Some h \<Rightarrow>
                        (case RecordValues h v c of
                           None \<Rightarrow> None
                         | Some (h', err) \<Rightarrow>
                             Merge_loop (st(hp := Some h')) hp fp i'
                               (if err \<noteq> None then s64 (dropped + c) else dropped)))
              else Some (st, dropped)))"

declare Merge_loop.simps [code]

definition Merge :: "store \<Rightarrow> nat \<Rightarrow> nat \<Rightarrow> (store \<times> int) option" where
  "Merge st hp fp = (case st fp of None \<Rightarrow> None | Some from \<Rightarrow> Merge_loop st hp fp new_rIterator 0)"

section \<open>Notions used to state the properties\<close>

text \<open>
  Nothing below belongs to the Go source. \<open>wf_geometry\<close> says that the derived fields of a
  histogram are related the way \<^verbatim>\<open>New\<close> derives them and that no shift of the index
  arithmetic leaves its integer type: the sub-bucket mask has
  \<open>unitMagnitude + subBucketHalfCountMagnitude + 1\<close> bits and must fit the 63 value bits of
  an \<^verbatim>\<open>int64\<close>. \<open>count_invariant\<close> is the relation between \<^verbatim>\<open>totalCount\<close> and \<^verbatim>\<open>counts\<close>, the
  sum being an \<^verbatim>\<open>int64\<close> sum like the field. \<open>RecordValues_seq\<close> is a sequence of calls of
  \<^verbatim>\<open>RecordValues\<close> that all return without an error.

  \<open>missing_values\<close> and \<open>record_each\<close> follow the words of the description of
  \<^verbatim>\<open>RecordCorrectedValue\<close>: the values \<open>v - expectedInterval\<close>, \<open>v - 2 * expectedInterval\<close>, ...
  down to but not below \<open>expectedInterval\<close>, present exactly when \<open>expectedInterval > 0\<close> and
  \<open>v > expectedInterval\<close>; and recording a list of values one occurrence each, stopping at
  the first failure with the earlier recordings left in place.
\<close>

definition wf_geometry :: "Histogram \<Rightarrow> bool" where
  "wf_geometry h \<longleftrightarrow>
     0 \<le> unitMagnitude h \<and> 0 \<le> subBucketHalfCountMagnitude h \<and>
     subBucketHalfCountMagnitude h \<le> 24 \<and>
     unitMagnitude h + subBucketHalfCountMagnitude h + 1 \<le> 63 \<and>
     subBucketCount h = 2 ^ nat (subBucketHalfCountMagnitude h + 1) \<and>
     subBucketHalfCount h = 2 ^ nat (subBucketHalfCountMagnitude h) \<and>
     subBucketMask h = (subBucketCount h - 1) * 2 ^ nat (unitMagnitude h) \<and>
     1 \<le> bucketCount h \<and> bucketCount h \<le> 64 \<and>
     countsLen h = (bucketCount h + 1) * subBucketHalfCount h \<and>
     int (length (counts h)) = countsLen h"

definition count_invariant :: "Histogram \<Rightarrow> bool" where
  "count_invariant h \<longleftrightarrow> totalCount h = s64 (sum_list (counts h))"

fun RecordValues_seq :: "Histogram \<Rightarrow> (int \<times> int) list \<Rightarrow> Histogram option" where
  "RecordValues_seq h [] = Some h"
| "RecordValues_seq h ((v, n) # rest) =
     (case RecordValues h v n of
        Some (h', None) \<Rightarrow> RecordValues_seq h' rest
      | _ \<Rightarrow> None)"

definition missing_values :: "int \<Rightarrow> int \<Rightarrow> int list" where
  "missing_values v expectedInterval =
    (if 0 < expectedInterval \<and> expectedInterval < v
     then map (\<lambda>k. v - int k * expectedInterval) [1 ..< nat (v div expectedInterval)]
     else [])"

fun record_each :: "Histogram \<Rightarrow> int list \<Rightarrow> (Histogram \<times> error option) option" where
  "record_each h [] = Some (h, None)"
| "record_each h (x # xs) =
     (case RecordValue h x of
        None \<Rightarrow> None
      | Some (h', err) \<Rightarrow> if err \<noteq> None then Some (h', err) else record_each h' xs)"

text \<open>
  The iterators visit the slots of \<^verbatim>\<open>counts\<close> in index order. \<open>slot_pos h k\<close> is the bucket
  and sub-bucket index that \<^verbatim>\<open>iterator.next\<close> holds when it is at slot \<open>k\<close>, \<open>slot_value h k\<close>
  is the value \<^verbatim>\<open>valueFromIdx\<close> it reports there, and \<open>iter_at h j\<close> is the whole iterator
  after \<open>j\<close> slots have been visited.

  \<open>counts_valid\<close> says that the counts are occurrence counts: none is negative, and
  \<^verbatim>\<open>totalCount\<close> is their sum without any \<^verbatim>\<open>int64\<close> overflow. \<open>slots_representable\<close> says
  that a slot with a count stands for values below \<open>2\<^sup>6\<^sup>3\<close> (\<^verbatim>\<open>New\<close> may allocate slots
  beyond these when \<^verbatim>\<open>unitMagnitude\<close> is positive; no \<^verbatim>\<open>int64\<close> value is recorded there).

  \<open>recorded h\<close> lists the slots with a count as pairs of value and count, in index order,
  and \<open>replay\<close> records such a list into a histogram the way the loop of \<^verbatim>\<open>Merge\<close> does,
  adding up the counts of the recordings that fail.
\<close>

fun slot_pos :: "Histogram \<Rightarrow> nat \<Rightarrow> int \<times> int" where
  "slot_pos h 0 = (0, 0)"
| "slot_pos h (Suc k) =
     (let (b, s) = slot_pos h k
      in if subBucketCount h \<le> s + 1 then (b + 1, subBucketHalfCount h) else (b, s + 1))"

definition slot_value :: "Histogram \<Rightarrow> nat \<Rightarrow> int" where
  "slot_value h k = valueFromIndex h (fst (slot_pos h k)) (snd (slot_pos h k))"

definition iter_at :: "Histogram \<Rightarrow> nat \<Rightarrow> iterator" where
  "iter_at h j =
    (case j of
       0 \<Rightarrow> new_iterator
     | Suc k \<Rightarrow>
         \<lparr>bucketIdx = fst (slot_pos h k), subBucketIdx = snd (slot_pos h k),
          countAtIdx = counts h ! k, countToIdx = sum_list (take (Suc k) (counts h)),
          valueFromIdx = slot_value h k,
          highestEquivalentValue_it = highestEquivalentValue h (slot_value h k)\<rparr>)"

definition counts_valid :: "Histogram \<Rightarrow> bool" where
  "counts_valid h \<longleftrightarrow>
     (\<forall>c \<in> set (counts h). 0 \<le> c) \<and> totalCount h = sum_list (counts h)
     \<and> sum_list (counts h) < 2 ^ 63"

definition slots_representable :: "Histogram \<Rightarrow> bool" where
  "slots_representable h \<longleftrightarrow>
     (\<forall>k < length (counts h). counts h ! k \<noteq> 0 \<longrightarrow>
        fst (slot_pos h k) + unitMagnitude h + subBucketHalfCountMagnitude h + 1 \<le> 63)"

fun first_nonzero :: "int list \<Rightarrow> nat option" where
  "first_nonzero [] = None"
| "first_nonzero (c # cs) = (if c \<noteq> 0 then Some 0 else map_option Suc (first_nonzero cs))"

definition recorded_from :: "Histogram \<Rightarrow> nat \<Rightarrow> (int \<times> int) list" where
  "recorded_from h j =
     map (\<lambda>k. (slot_value h k, counts h ! k))
       (filter (\<lambda>k. counts h ! k \<noteq> 0) [j ..< length (counts h)])"

definition recorded :: "Histogram \<Rightarrow> (int \<times> int) list" where
  "recorded h = recorded_from h 0"

fun replay :: "Histogram \<Rightarrow> (int \<times> int) list \<Rightarrow> int \<Rightarrow> (Histogram \<times> int) option" where
  "replay a [] d = Some (a, d)"
| "replay a ((v, c) # rest) d =
     (case RecordValues a v c of
        None \<Rightarrow> None
      | Some (a', err) \<Rightarrow> replay a' rest (if err \<noteq> None then s64 (d + c) else d))"

subsection \<open>Concrete histograms\<close>

text \<open>
  \<open>h31\<close> is what \<^verbatim>\<open>New(1, 31, 1)\<close> returns: one bucket of 32 sub-buckets. \<open>h31_a\<close> is \<open>h31\<close>
  after \<^verbatim>\<open>RecordValues(5, 3)\<close>, \<open>h31_b\<close> is \<open>h31\<close> after \<^verbatim>\<open>RecordCorrectedValue(20, 5)\<close>,
  \<open>h31_ab\<close> is \<open>h31_a\<close> after merging \<open>h31_b\<close> into it, and \<open>h31_heavy\<close> is \<open>h31\<close> after
  \<^verbatim>\<open>RecordValues(1, 4503599627370497)\<close> (the count is \<open>2\<^sup>5\<^sup>2 + 1\<close>). \<open>h_wide\<close> is what
  \<^verbatim>\<open>New(1729382256910270464, 1729382256910270464, 1)\<close> returns (the value is
  \<open>3 * 2\<^sup>5\<^sup>9\<close>, so \<^verbatim>\<open>unitMagnitude\<close> is 60).
\<close>

definition h31 :: Histogram where
  "h31 = \<lparr>lowestTrackableValue = 1, highestTrackableValue = 31, unitMagnitude = 0,
           significantFigures = 1, subBucketHalfCountMagnitude = 4, subBucketHalfCount = 16,
           subBucketMask = 31, subBucketCount = 32, bucketCount = 1, countsLen = 32,
           totalCount = 0, counts = replicate 32 0\<rparr>"

definition h31_a :: Histogram where
  "h31_a = h31\<lparr>counts := (counts h31)[5 := 3], totalCount := 3\<rparr>"

definition h31_b :: Histogram where
  "h31_b = h31\<lparr>counts := (counts h31)[5 := 1, 10 := 1, 15 := 1, 20 := 1], totalCount := 4\<rparr>"

definition h31_ab :: Histogram where
  "h31_ab = h31\<lparr>counts := (counts h31)[5 := 4, 10 := 1, 15 := 1, 20 := 1], totalCount := 7\<rparr>"

definition h31_heavy :: Histogram where
  "h31_heavy = h31\<lparr>counts := (counts h31)[1 := 2 ^ 52 + 1], totalCount := 2 ^ 52 + 1\<rparr>"

definition h_wide :: Histogram where
  "h_wide = \<lparr>lowestTrackableValue = 1729382256910270464,
              highestTrackableValue = 1729382256910270464, unitMagnitude = 60,
              significantFigures = 1, subBucketHalfCountMagnitude = 4, subBucketHalfCount = 16,
              subBucketMask = - 1152921504606846976, subBucketCount = 32, bucketCount = 57,
              countsLen = 928, totalCount = 0, counts = replicate 928 0\<rparr>"

definition store_ab :: store where
  "store_ab = (\<lambda>_. None)(0 := Some h31_a, 1 := Some h31_b)"

section \<open>Properties\<close>

subsection \<open>Machine arithmetic and bit lengths\<close>

text \<open>\<^verbatim>\<open>bitLen\<close> is the bit length of a non-negative number, and 0 on a negative one.\<close>

lemma s64_id: "- (2 ^ 63) \<le> x \<Longrightarrow> x < 2 ^ 63 \<Longrightarrow> s64 x = x"
  by (simp add: s64_def signed_take_bit_int_eq_self)

lemma s32_id: "- (2 ^ 31) \<le> x \<Longrightarrow> x < 2 ^ 31 \<Longrightarrow> s32 x = x"
  by (simp add: s32_def signed_take_bit_int_eq_self)

lemma s64_range: "- (2 ^ 63) \<le> s64 x \<and> s64 x < 2 ^ 63"
  unfolding s64_def
  using signed_take_bit_int_greater_eq_minus_exp [of 63 x] signed_take_bit_int_less_exp [of 63 x]
  by simp

lemma s64_add_left: "s64 (s64 a + b) = s64 (a + b)"
  unfolding s64_def by (metis signed_take_bit_add signed_take_bit_signed_take_bit min.idem)

lemma s64_add_right: "s64 (a + s64 b) = s64 (a + b)"
  by (metis add.commute s64_add_left)

lemma bitlen_div_pow2: "0 \<le> x \<Longrightarrow> bitlen (x div 2 ^ k) = max 0 (bitlen x - int k)"
proof (induction k arbitrary: x)
  case 0
  then show ?case by (simp add: bitlen_nonneg)
next
  case (Suc k)
  have "x div 2 ^ Suc k = (x div 2) div 2 ^ k"
    by (simp add: zdiv_zmult2_eq)
  moreover have "0 \<le> x div 2" using Suc.prems by simp
  ultimately have "bitlen (x div 2 ^ Suc k) = max 0 (bitlen (x div 2) - int k)"
    using Suc.IH by simp
  also have "\<dots> = max 0 (bitlen x - int (Suc k))"
  proof (cases "0 < x")
    case True
    then have "bitlen x = bitlen (x div 2) + 1" by (subst compute_bitlen) simp
    then show ?thesis by simp
  next
    case False
    with Suc.prems have "x = 0" by simp
    then show ?thesis by simp
  qed
  finally show ?case .
qed

lemma bitlen_gt_iff: "int k < bitlen x \<longleftrightarrow> 2 ^ k \<le> x"
  using bitlen_le_iff_power [of x "int k"] by auto

lemma div_mult_le_int: "0 < d \<Longrightarrow> (x div d) * d \<le> (x::int)"
  using div_mult_mod_eq [of x d] pos_mod_sign [of d x] by linarith

lemma div_less_int: "0 < d \<Longrightarrow> x < q * d \<Longrightarrow> x div d < (q::int)"
proof (rule ccontr)
  assume d: "0 < d" and x: "x < q * d" and "\<not> x div d < q"
  then have "q \<le> x div d" by simp
  then have "q * d \<le> (x div d) * d" using d by (simp add: mult_right_mono)
  also have "\<dots> \<le> x" using d by (rule div_mult_le_int)
  finally show False using x by simp
qed

lemma shift_bound: "x < 2 ^ (j + k) \<Longrightarrow> x div 2 ^ k < (2::int) ^ j"
  by (rule div_less_int) (simp_all add: power_add)

lemma bitlen_shift: "0 \<le> x \<Longrightarrow> 2 ^ k \<le> x \<Longrightarrow> int (Suc k) + bitlen (x div 2 ^ Suc k) = bitlen x"
  using bitlen_div_pow2 [of x "Suc k"] bitlen_gt_iff [of k x] by simp

lemma bitLen_tail1_eq: "0 \<le> x \<Longrightarrow> x < 2 \<Longrightarrow> bitLen_tail1 x n = n + bitlen x"
proof -
  assume "0 \<le> x" "x < 2"
  then consider "x = 0" | "x = 1" by linarith
  then show ?thesis
  proof cases
    case 1 then show ?thesis by (simp add: bitLen_tail1_def)
  next
    case 2 then show ?thesis using bitlen_twopow_add_eq [of 0 0] by (simp add: bitLen_tail1_def)
  qed
qed

lemma bitLen_tail2_eq:
  assumes "0 \<le> x" "x < 2 ^ 3"
  shows "bitLen_tail2 x n = n + bitlen x"
proof (cases "2 \<le> x")
  case True
  have "x div 2 ^ 2 < 2 ^ 1" using assms(2) by (intro shift_bound) simp
  moreover have "0 \<le> x div 2 ^ 2" using assms(1) by simp
  ultimately have "bitLen_tail1 (x div 2 ^ 2) (n + 2) = n + 2 + bitlen (x div 2 ^ 2)"
    by (intro bitLen_tail1_eq) simp_all
  moreover have "int (Suc 1) + bitlen (x div 2 ^ Suc 1) = bitlen x"
    using assms(1) True by (intro bitlen_shift) simp_all
  ultimately show ?thesis using True by (simp add: bitLen_tail2_def)
next
  case False
  then show ?thesis using assms(1) by (simp add: bitLen_tail2_def bitLen_tail1_eq)
qed

lemma bitLen_tail4_eq:
  assumes "0 \<le> x" "x < 2 ^ 7"
  shows "bitLen_tail4 x n = n + bitlen x"
proof (cases "8 \<le> x")
  case True
  have "x div 2 ^ 4 < 2 ^ 3" using assms(2) by (intro shift_bound) simp
  moreover have "0 \<le> x div 2 ^ 4" using assms(1) by simp
  ultimately have "bitLen_tail2 (x div 2 ^ 4) (n + 4) = n + 4 + bitlen (x div 2 ^ 4)"
    by (intro bitLen_tail2_eq) simp_all
  moreover have "int (Suc 3) + bitlen (x div 2 ^ Suc 3) = bitlen x"
    using assms(1) True by (intro bitlen_shift) simp_all
  ultimately show ?thesis using True by (simp add: bitLen_tail4_def)
next
  case False
  then show ?thesis using assms(1) by (simp add: bitLen_tail4_def bitLen_tail2_eq)
qed

lemma bitLen_tail_eq:
  assumes "0 \<le> x" "x < 2 ^ 15"
  shows "bitLen_tail x n = n + bitlen x"
proof (cases "128 \<le> x")
  case True
  have "x div 2 ^ 8 < 2 ^ 7" using assms(2) by (intro shift_bound) simp
  moreover have "0 \<le> x div 2 ^ 8" using assms(1) by simp
  ultimately have "bitLen_tail4 (x div 2 ^ 8) (n + 8) = n + 8 + bitlen (x div 2 ^ 8)"
    by (intro bitLen_tail4_eq) simp_all
  moreover have "int (Suc 7) + bitlen (x div 2 ^ Suc 7) = bitlen x"
    using assms(1) True by (intro bitlen_shift) simp_all
  ultimately show ?thesis using True by (simp add: bitLen_tail_def)
next
  case False
  then show ?thesis using assms(1) by (simp add: bitLen_tail_def bitLen_tail4_eq)
qed

lemma bitLen_tail_neg: "x < 0 \<Longrightarrow> bitLen_tail x n = n"
  by (simp add: bitLen_tail_def bitLen_tail4_def bitLen_tail2_def bitLen_tail1_def)

lemma bitLen_loop_eq: "bitLen_loop x n = n + bitlen x"
proof (induction x n rule: bitLen_loop.induct)
  case (1 x n)
  show ?case
  proof (cases "32768 \<le> x")
    case True
    then have "2 ^ 15 \<le> x" by simp
    then have "int 15 < bitlen x" by (simp only: bitlen_gt_iff)
    moreover have "bitlen (x div 2 ^ 16) = max 0 (bitlen x - 16)"
      using True bitlen_div_pow2 [of x 16] by simp
    ultimately show ?thesis using 1 True by (subst bitLen_loop.simps) simp
  next
    case False
    then have tail: "bitLen_loop x n = bitLen_tail x n" by (subst bitLen_loop.simps) simp
    show ?thesis
    proof (cases "x < 0")
      case True
      then have "bitlen x = 0" by (simp add: bitlen_eq_zero_iff)
      with True tail show ?thesis by (simp add: bitLen_tail_neg)
    next
      case nonneg: False
      with False tail show ?thesis by (simp add: bitLen_tail_eq)
    qed
  qed
qed

lemma bitLen_bitlen: "bitLen x = bitlen x"
  by (simp add: bitLen_def bitLen_loop_eq)

subsection \<open>Index arithmetic on a well-formed geometry\<close>

lemma bitlen_mono: "x \<le> y \<Longrightarrow> bitlen x \<le> bitlen y"
  by (meson bitlen_le_iff_power bitlen_nonneg order_le_less_trans order_refl)

lemma bitlen_less_pow: "0 \<le> x \<Longrightarrow> x < 2 ^ nat (bitlen x)"
  using bitlen_le_iff_power [of x "bitlen x"] by (simp add: bitlen_nonneg)

lemma bitlen_or:
  assumes "0 \<le> x" "0 \<le> y"
  shows "bitlen (x OR y) = max (bitlen x) (bitlen y)"
proof (rule antisym)
  let ?n = "nat (max (bitlen x) (bitlen y))"
  have "x < 2 ^ nat (bitlen x)" "y < 2 ^ nat (bitlen y)"
    using assms by (simp_all add: bitlen_less_pow)
  moreover have "(2::int) ^ nat (bitlen x) \<le> 2 ^ ?n" "(2::int) ^ nat (bitlen y) \<le> 2 ^ ?n"
    by (simp_all add: power_increasing)
  ultimately have "x < 2 ^ ?n" "y < 2 ^ ?n" by linarith+
  then have "x OR y < 2 ^ ?n" using assms(1) by (intro OR_upper)
  then show "bitlen (x OR y) \<le> max (bitlen x) (bitlen y)"
    using bitlen_le_iff_power [of "x OR y" "max (bitlen x) (bitlen y)"]
    by (simp add: bitlen_nonneg le_max_iff_disj)
next
  have "x \<le> x OR y" using assms(2) by (rule or_greater_eq)
  moreover have "y \<le> x OR y" using or_greater_eq [of x y] assms(1) by (simp add: or.commute)
  ultimately show "max (bitlen x) (bitlen y) \<le> bitlen (x OR y)"
    by (simp add: bitlen_mono)
qed

lemma bitlen_le_nat: "x < 2 ^ n \<Longrightarrow> bitlen x \<le> int n"
  using bitlen_le_iff_power [of x "int n"] by simp

lemma bitlen_pow2_minus1: "bitlen (2 ^ n - 1) = int n"
proof (cases n)
  case 0
  then show ?thesis by simp
next
  case (Suc m)
  have "(2::int) ^ m \<le> 2 ^ Suc m - 1" by simp
  then have "int m < bitlen (2 ^ Suc m - 1)" by (simp only: bitlen_gt_iff)
  moreover have "bitlen (2 ^ Suc m - 1) \<le> int (Suc m)"
    by (rule bitlen_le_nat) simp
  ultimately show ?thesis using Suc by simp
qed

lemma bitlen_mask:
  assumes "wf_geometry h"
  shows "bitlen (subBucketMask h) = unitMagnitude h + subBucketHalfCountMagnitude h + 1"
    and "0 < subBucketMask h"
proof -
  let ?m = "nat (subBucketHalfCountMagnitude h + 1)"
  have m: "subBucketMask h = (2 ^ ?m - 1) * 2 ^ nat (unitMagnitude h)"
    using assms by (simp add: wf_geometry_def)
  have pos: "(0::int) < 2 ^ ?m - 1"
  proof -
    have "0 \<le> subBucketHalfCountMagnitude h" using assms by (simp add: wf_geometry_def)
    then have "?m = Suc (nat (subBucketHalfCountMagnitude h))" by simp
    then have "(2::int) ^ ?m = 2 * 2 ^ nat (subBucketHalfCountMagnitude h)" by simp
    moreover have "(1::int) \<le> 2 ^ nat (subBucketHalfCountMagnitude h)" by simp
    ultimately show ?thesis by linarith
  qed
  then show "0 < subBucketMask h" by (simp add: m)
  have "bitlen (subBucketMask h) = bitlen (2 ^ ?m - 1) + int (nat (unitMagnitude h))"
    unfolding m using pos by (rule bitlen_pow2)
  also have "\<dots> = unitMagnitude h + subBucketHalfCountMagnitude h + 1"
    using assms by (simp add: bitlen_pow2_minus1 wf_geometry_def)
  finally show "bitlen (subBucketMask h) = unitMagnitude h + subBucketHalfCountMagnitude h + 1" .
qed

lemma bitlen_le_63: "x < 2 ^ 63 \<Longrightarrow> bitlen x \<le> 63"
  using bitlen_le_nat [of x 63] by simp

lemma getBucketIndex_eq:
  assumes "wf_geometry h" "0 \<le> v" "v < 2 ^ 63"
  shows "getBucketIndex h v =
           max 0 (bitlen v - (unitMagnitude h + subBucketHalfCountMagnitude h + 1))"
proof -
  let ?M = "unitMagnitude h + subBucketHalfCountMagnitude h + 1"
  have wf: "0 \<le> unitMagnitude h" "0 \<le> subBucketHalfCountMagnitude h"
    "subBucketHalfCountMagnitude h \<le> 24" "?M \<le> 63"
    using assms(1) by (simp_all add: wf_geometry_def)
  have bl: "bitlen v \<le> 63" "0 \<le> bitlen v" using assms(3) by (simp_all add: bitlen_le_63 bitlen_nonneg)
  have "bitLen (v OR subBucketMask h) = max (bitlen v) ?M"
    using bitlen_mask [OF assms(1)] assms(2) by (simp add: bitLen_bitlen bitlen_or)
  moreover have "s32 (subBucketHalfCountMagnitude h + 1) = subBucketHalfCountMagnitude h + 1"
    using wf by (intro s32_id) simp_all
  moreover have "s64 (max (bitlen v) ?M - unitMagnitude h) = max (bitlen v) ?M - unitMagnitude h"
    using wf bl by (intro s64_id) simp_all
  moreover have "s64 (max (bitlen v) ?M - unitMagnitude h - (subBucketHalfCountMagnitude h + 1))
      = max (bitlen v) ?M - ?M"
    using wf bl by (subst s64_id) simp_all
  moreover have "s32 (max (bitlen v) ?M - ?M) = max (bitlen v) ?M - ?M"
    using wf bl by (intro s32_id) simp_all
  ultimately show ?thesis by (simp add: getBucketIndex_def)
qed


lemma getBucketIndex_bounds:
  assumes "wf_geometry h" "0 \<le> v" "v < 2 ^ 63"
  shows "0 \<le> getBucketIndex h v"
    and "getBucketIndex h v + unitMagnitude h + subBucketHalfCountMagnitude h + 1 \<le> 63"
    and "bitlen v \<le> getBucketIndex h v + unitMagnitude h + subBucketHalfCountMagnitude h + 1"
    and "0 < getBucketIndex h v \<Longrightarrow>
           bitlen v = getBucketIndex h v + unitMagnitude h + subBucketHalfCountMagnitude h + 1"
  using getBucketIndex_eq [OF assms] bitlen_le_63 [OF assms(3)] assms(1)
  by (simp_all add: wf_geometry_def max_def split: if_splits)

lemma shr64_small: "0 \<le> k \<Longrightarrow> k < 64 \<Longrightarrow> shr64 x k = x div 2 ^ nat k"
  by (simp add: shr64_def)

lemma pow_nat_add: "0 \<le> a \<Longrightarrow> 0 \<le> b \<Longrightarrow> (2::int) ^ nat (a + b) = 2 ^ nat a * 2 ^ nat b"
  by (simp add: nat_add_distrib power_add)

lemma div_ge_int: "0 < d \<Longrightarrow> q * d \<le> x \<Longrightarrow> q \<le> x div (d::int)"
  using zdiv_mono1 [of "q * d" x d] by simp

lemma getSubBucketIdx_eq:
  assumes "wf_geometry h" "0 \<le> v" "v < 2 ^ 63"
  defines "b \<equiv> getBucketIndex h v"
  shows "getSubBucketIdx h v b = v div 2 ^ nat (b + unitMagnitude h)"
    and "0 \<le> getSubBucketIdx h v b"
    and "getSubBucketIdx h v b < subBucketCount h"
    and "0 < b \<Longrightarrow> subBucketHalfCount h \<le> getSubBucketIdx h v b"
proof -
  let ?um = "unitMagnitude h" and ?shm = "subBucketHalfCountMagnitude h"
  let ?s = "v div 2 ^ nat (b + ?um)"
  have wf: "0 \<le> ?um" "0 \<le> ?shm" "?shm \<le> 24" "subBucketCount h = 2 ^ nat (?shm + 1)"
    "subBucketHalfCount h = 2 ^ nat ?shm"
    using assms(1) by (simp_all add: wf_geometry_def)
  have b: "0 \<le> b" "b + ?um + ?shm + 1 \<le> 63" "bitlen v \<le> b + ?um + ?shm + 1"
    unfolding b_def using getBucketIndex_bounds [OF assms(1-3)] by simp_all
  have k: "s64 (b + ?um) = b + ?um" using b wf by (intro s64_id) simp_all
  have shr: "shr64 v (b + ?um) = ?s" using b wf by (intro shr64_small) simp_all
  have nonneg: "0 \<le> ?s" using assms(2) by (simp add: pos_imp_zdiv_nonneg_iff)
  have "v < 2 ^ nat (bitlen v)" using assms(2) by (rule bitlen_less_pow)
  also have "\<dots> \<le> 2 ^ nat ((?shm + 1) + (b + ?um))"
    using b by (intro power_increasing) simp_all
  also have "\<dots> = 2 ^ nat (?shm + 1) * 2 ^ nat (b + ?um)"
    using b wf by (intro pow_nat_add) simp_all
  finally have upper: "?s < 2 ^ nat (?shm + 1)" by (intro div_less_int) simp_all
  have "(2::int) ^ nat (?shm + 1) \<le> 2 ^ 25" using wf by (intro power_increasing) simp_all
  with upper have "?s < 2 ^ 31" by simp
  with nonneg have "s32 ?s = ?s" by (intro s32_id) simp_all
  then show eq: "getSubBucketIdx h v b = ?s" by (simp add: getSubBucketIdx_def k shr)
  show "0 \<le> getSubBucketIdx h v b" using nonneg eq by simp
  show "getSubBucketIdx h v b < subBucketCount h" using upper eq wf by simp
  show "subBucketHalfCount h \<le> getSubBucketIdx h v b" if "0 < b"
  proof -
    have bl: "bitlen v = b + ?um + ?shm + 1"
      using that getBucketIndex_bounds(4) [OF assms(1-3)] by (simp add: b_def)
    have "int (nat (?shm + (b + ?um))) < bitlen v" using bl b wf by simp
    then have "2 ^ nat (?shm + (b + ?um)) \<le> v" by (simp only: bitlen_gt_iff)
    moreover have "(2::int) ^ nat (?shm + (b + ?um)) = 2 ^ nat ?shm * 2 ^ nat (b + ?um)"
      using b wf by (intro pow_nat_add) simp_all
    ultimately have "2 ^ nat ?shm \<le> ?s" by (intro div_ge_int) simp_all
    then show ?thesis using eq wf by simp
  qed
qed

lemma shl32_small:
  assumes "0 \<le> k" "k < 32" "- (2 ^ 31) \<le> x * 2 ^ nat k" "x * 2 ^ nat k < 2 ^ 31"
  shows "shl32 x k = x * 2 ^ nat k"
  using assms by (simp add: shl32_def s32_id)

lemma countsIndex_eq:
  assumes "wf_geometry h" "0 \<le> b" "b \<le> 63" "0 \<le> s" "s < subBucketCount h"
  shows "countsIndex h b s = b * subBucketHalfCount h + s"
proof -
  let ?shm = "subBucketHalfCountMagnitude h" and ?shc = "subBucketHalfCount h"
  have wf: "0 \<le> ?shm" "?shm \<le> 24" "subBucketCount h = 2 ^ nat (?shm + 1)" "?shc = 2 ^ nat ?shm"
    using assms(1) by (simp_all add: wf_geometry_def)
  have shc: "0 < ?shc" "?shc \<le> 2 ^ 24"
    using wf power_increasing [of "nat ?shm" 24 "2::int"] by simp_all
  have sbc: "subBucketCount h = 2 * ?shc"
    using wf by (simp add: nat_add_distrib)
  have "(b + 1) * ?shc \<le> 64 * 2 ^ 24"
    using assms(2,3) shc by (intro mult_mono) simp_all
  moreover have "0 \<le> (b + 1) * ?shc" using assms(2) shc by simp
  ultimately have prod: "0 \<le> (b + 1) * ?shc" "(b + 1) * ?shc \<le> 64 * 2 ^ 24" by simp_all
  have b1: "s32 (b + 1) = b + 1" using assms(2,3) by (intro s32_id) simp_all
  have base: "shl32 (b + 1) ?shm = (b + 1) * ?shc"
    using wf prod by (subst shl32_small) simp_all
  have off: "s32 (s - ?shc) = s - ?shc" using assms(4,5) shc sbc by (intro s32_id) simp_all
  have fin: "s32 ((b + 1) * ?shc + (s - ?shc)) = (b + 1) * ?shc + (s - ?shc)"
    using prod assms(4,5) shc sbc by (intro s32_id) simp_all
  have "countsIndex h b s = s32 (shl32 (s32 (b + 1)) ?shm + s32 (s - ?shc))"
    by (simp add: countsIndex_def)
  also have "\<dots> = s32 ((b + 1) * ?shc + (s - ?shc))" by (simp only: b1 base off)
  also have "\<dots> = (b + 1) * ?shc + (s - ?shc)" by (rule fin)
  also have "\<dots> = b * ?shc + s" by (simp add: algebra_simps)
  finally show ?thesis .
qed

lemma countsIndexFor_eq:
  assumes "wf_geometry h" "0 \<le> v" "v < 2 ^ 63"
  shows "countsIndexFor h v =
           getBucketIndex h v * subBucketHalfCount h
           + v div 2 ^ nat (getBucketIndex h v + unitMagnitude h)"
proof -
  have "countsIndex h (getBucketIndex h v) (getSubBucketIdx h v (getBucketIndex h v))
      = getBucketIndex h v * subBucketHalfCount h + getSubBucketIdx h v (getBucketIndex h v)"
    using getBucketIndex_bounds(1,2) [OF assms] getSubBucketIdx_eq(2,3) [OF assms] assms(1)
    by (intro countsIndex_eq) (simp_all add: wf_geometry_def)
  then show ?thesis
    by (simp add: countsIndexFor_def Let_def getSubBucketIdx_eq(1) [OF assms])
qed

lemma countsIndexFor_range:
  assumes "wf_geometry h" "0 \<le> v" "v < 2 ^ 63"
  shows "0 \<le> countsIndexFor h v"
    and "countsIndexFor h v < countsLen h \<longleftrightarrow> getBucketIndex h v < bucketCount h"
proof -
  let ?b = "getBucketIndex h v" and ?shc = "subBucketHalfCount h"
  let ?s = "getSubBucketIdx h v ?b"
  have wf: "subBucketCount h = 2 ^ nat (subBucketHalfCountMagnitude h + 1)"
    "?shc = 2 ^ nat (subBucketHalfCountMagnitude h)" "0 \<le> subBucketHalfCountMagnitude h"
    "1 \<le> bucketCount h" "countsLen h = (bucketCount h + 1) * ?shc"
    using assms(1) by (simp_all add: wf_geometry_def)
  have shc: "0 < ?shc" using wf by simp
  have sbc: "subBucketCount h = 2 * ?shc" using wf by (simp add: nat_add_distrib)
  have b: "0 \<le> ?b" using getBucketIndex_bounds(1) [OF assms] .
  have s: "0 \<le> ?s" "?s < 2 * ?shc" "0 < ?b \<Longrightarrow> ?shc \<le> ?s"
    using getSubBucketIdx_eq(2-4) [OF assms] sbc by simp_all
  have idx: "countsIndexFor h v = ?b * ?shc + ?s"
    using countsIndexFor_eq [OF assms] getSubBucketIdx_eq(1) [OF assms] by simp
  show "0 \<le> countsIndexFor h v" using idx b s(1) shc by simp
  show "countsIndexFor h v < countsLen h \<longleftrightarrow> ?b < bucketCount h"
  proof (cases "?b < bucketCount h")
    case True
    then have "(?b + 2) * ?shc \<le> (bucketCount h + 1) * ?shc"
      using shc by (intro mult_right_mono) simp_all
    moreover have "?b * ?shc + ?s < (?b + 2) * ?shc" using s(2) by (simp add: algebra_simps)
    ultimately have "?b * ?shc + ?s < (bucketCount h + 1) * ?shc" by linarith
    then show ?thesis using True idx wf(5) by simp
  next
    case False
    then have pos: "0 < ?b" using wf by simp
    have "(bucketCount h) * ?shc \<le> ?b * ?shc"
      using False shc by (intro mult_right_mono) simp_all
    then have "(bucketCount h + 1) * ?shc \<le> ?b * ?shc + ?s"
      using s(3) [OF pos] by (simp add: algebra_simps)
    then show ?thesis using False idx wf(5) by simp
  qed
qed

lemma RecordValues_ok:
  assumes "wf_geometry h" "0 \<le> v" "v < 2 ^ 63" "getBucketIndex h v < bucketCount h"
  shows "RecordValues h v n =
           Some (h\<lparr>counts := (counts h)[nat (countsIndexFor h v) :=
                                 s64 (counts h ! nat (countsIndexFor h v) + n)],
                   totalCount := s64 (totalCount h + n)\<rparr>, None)"
  using countsIndexFor_range [OF assms(1-3)] assms(1,4)
  by (simp add: RecordValues_def Let_def wf_geometry_def)

subsection \<open>Construction\<close>

text \<open>
  If the loop of \<^verbatim>\<open>New\<close> returns, it returns one more than the number of doublings that
  take \<^verbatim>\<open>subBucketCount - 1\<close> to \<^verbatim>\<open>maxValue\<close> or above without leaving \<^verbatim>\<open>int64\<close>. (When
  \<^verbatim>\<open>maxValue\<close> is above every such value the doubled number wraps to a non-positive one
  and the loop never ends.)
\<close>

lemma s64_mult_left: "s64 (s64 a * b) = s64 (a * b)"
proof -
  have "signed_take_bit 63 (signed_take_bit 63 a * b)
      = signed_take_bit 63 (signed_take_bit 63 (signed_take_bit 63 a) * signed_take_bit 63 b)"
    by (simp only: signed_take_bit_mult)
  also have "\<dots> = signed_take_bit 63 (signed_take_bit 63 a * signed_take_bit 63 b)" by simp
  also have "\<dots> = signed_take_bit 63 (a * b)" by (rule signed_take_bit_mult)
  finally show ?thesis by (simp only: s64_def)
qed

lemma s64_cong:
  assumes "x - y = c * 2 ^ 64" "- (2 ^ 63) \<le> y" "y < 2 ^ 63"
  shows "s64 x = y"
proof -
  define N :: int where "N = 2 ^ 64"
  have eq: "x + 2 ^ 63 = (y + 2 ^ 63) + c * N" using assms(1) by (simp add: N_def)
  have "(x + 2 ^ 63) mod N = ((y + 2 ^ 63) + c * N) mod N" by (simp only: eq)
  also have "\<dots> = (y + 2 ^ 63) mod N" by (rule mod_mult_self1)
  also have "\<dots> = y + 2 ^ 63" using assms(2,3) by (simp add: N_def)
  finally show ?thesis
    by (simp add: s64_def signed_take_bit_eq_take_bit_shift take_bit_eq_mod N_def)
qed

lemma s64_ones_shifted:
  assumes "1 \<le> m" "63 < j + m"
  shows "s64 ((2 ^ m - 1) * 2 ^ j) \<le> 0"
proof (cases "64 \<le> j")
  case True
  then obtain i where j: "j = 64 + i" using le_Suc_ex by blast
  have "(2 ^ m - 1) * 2 ^ j - 0 = ((2 ^ m - 1) * 2 ^ i) * (2::int) ^ 64"
    by (simp add: j power_add)
  then have "s64 ((2 ^ m - 1) * 2 ^ j) = 0" by (rule s64_cong) simp_all
  then show ?thesis by simp
next
  case False
  then have j: "j \<le> 63" by simp
  have "64 \<le> m + j" using assms(2) by simp
  then obtain i where i: "m + j = 64 + i" using le_Suc_ex by blast
  have "(2 ^ m - 1) * 2 ^ j - (- (2 ^ j)) = (2::int) ^ (m + j)"
    by (simp add: algebra_simps power_add)
  also have "\<dots> = 2 ^ i * 2 ^ 64" by (simp add: i power_add)
  finally have "(2 ^ m - 1) * 2 ^ j - (- (2 ^ j)) = 2 ^ i * (2::int) ^ 64" .
  moreover have "(2::int) ^ j \<le> 2 ^ 63" using j by (intro power_increasing) simp_all
  moreover have "- (2 ^ j) < (2::int) ^ 63"
  proof -
    have "- (2 ^ j) < (0::int)" by simp
    also have "(0::int) < 2 ^ 63" by simp
    finally show ?thesis .
  qed
  ultimately have "s64 ((2 ^ m - 1) * 2 ^ j) = - (2 ^ j)"
    by (intro s64_cong) simp_all
  then show ?thesis by simp
qed

lemma ones_shifted_bound:
  assumes "1 \<le> m" "j + m \<le> 63"
  shows "0 < (2 ^ m - 1) * (2::int) ^ j" "(2 ^ m - 1) * (2::int) ^ j < 2 ^ 63"
proof -
  have "(2::int) ^ 1 \<le> 2 ^ m" using assms(1) by (intro power_increasing) simp_all
  then show "0 < (2 ^ m - 1) * (2::int) ^ j" by simp
  have "(2 ^ m - 1) * (2::int) ^ j < 2 ^ m * 2 ^ j" by simp
  also have "\<dots> = 2 ^ (j + m)" by (simp add: power_add)
  also have "\<dots> \<le> 2 ^ 63" using assms(2) by (intro power_increasing) simp_all
  finally show "(2 ^ m - 1) * (2::int) ^ j < 2 ^ 63" .
qed

lemma bucketsNeeded_loop_result_aux:
  assumes "bucketsNeeded_loop maxValue tv n = Some r" and m: "1 \<le> m"
  shows "0 < maxValue \<longrightarrow> (\<forall>j. tv = s64 ((2 ^ m - 1) * 2 ^ j) \<longrightarrow>
         (j + m \<le> 63 \<longrightarrow> n = 1 + int j) \<longrightarrow>
         (\<exists>k\<ge>j. k + m \<le> 63 \<and> r = 1 + int k \<and> maxValue \<le> (2 ^ m - 1) * 2 ^ k))"
proof (rule bucketsNeeded_loop.raw_induct [where P = "\<lambda>maxValue tv n r.
         0 < maxValue \<longrightarrow> (\<forall>j. tv = s64 ((2 ^ m - 1) * 2 ^ j) \<longrightarrow>
         (j + m \<le> 63 \<longrightarrow> n = 1 + int j) \<longrightarrow>
         (\<exists>k\<ge>j. k + m \<le> 63 \<and> r = 1 + int k \<and> maxValue \<le> (2 ^ m - 1) * 2 ^ k))", OF _ assms(1)])
  fix loop :: "int \<Rightarrow> int \<Rightarrow> int \<Rightarrow> int option" and maxValue tv n r :: int
  assume IH: "\<And>maxValue tv n r. loop maxValue tv n = Some r \<Longrightarrow>
         0 < maxValue \<longrightarrow> (\<forall>j. tv = s64 ((2 ^ m - 1) * 2 ^ j) \<longrightarrow>
         (j + m \<le> 63 \<longrightarrow> n = 1 + int j) \<longrightarrow>
         (\<exists>k\<ge>j. k + m \<le> 63 \<and> r = 1 + int k \<and> maxValue \<le> (2 ^ m - 1) * 2 ^ k))"
    and body: "(if tv < maxValue then loop maxValue (shl64 tv 1) (s32 (n + 1)) else Some n) = Some r"
  show "0 < maxValue \<longrightarrow> (\<forall>j. tv = s64 ((2 ^ m - 1) * 2 ^ j) \<longrightarrow>
         (j + m \<le> 63 \<longrightarrow> n = 1 + int j) \<longrightarrow>
         (\<exists>k\<ge>j. k + m \<le> 63 \<and> r = 1 + int k \<and> maxValue \<le> (2 ^ m - 1) * 2 ^ k))"
  proof (intro impI allI)
    fix j
    assume pos: "0 < maxValue" and tvj: "tv = s64 ((2 ^ m - 1) * 2 ^ j)"
      and nj: "j + m \<le> 63 \<longrightarrow> n = 1 + int j"
    show "\<exists>k\<ge>j. k + m \<le> 63 \<and> r = 1 + int k \<and> maxValue \<le> (2 ^ m - 1) * 2 ^ k"
    proof (cases "j + m \<le> 63")
      case True
      have tv: "tv = (2 ^ m - 1) * 2 ^ j"
        using ones_shifted_bound [OF m True] tvj by (simp add: s64_id)
      show ?thesis
      proof (cases "tv < maxValue")
        case less: True
        with body have rec: "loop maxValue (shl64 tv 1) (s32 (n + 1)) = Some r" by simp
        have sh: "shl64 tv 1 = s64 ((2 ^ m - 1) * 2 ^ Suc j)"
          by (simp add: shl64_def tv mult_ac)
        have n: "Suc j + m \<le> 63 \<longrightarrow> s32 (n + 1) = 1 + int (Suc j)"
          using nj True by (simp add: s32_id)
        from IH [OF rec] pos sh n
        obtain k where "Suc j \<le> k" "k + m \<le> 63" "r = 1 + int k" "maxValue \<le> (2 ^ m - 1) * 2 ^ k"
          by blast
        then show ?thesis by (intro exI [of _ k]) simp
      next
        case False
        with body have "r = n" by simp
        with False True tv nj show ?thesis by (intro exI [of _ j]) simp
      qed
    next
      case False
      then have "tv \<le> 0" using s64_ones_shifted [OF m, of j] tvj by simp
      with pos body have rec: "loop maxValue (shl64 tv 1) (s32 (n + 1)) = Some r" by simp
      have "shl64 tv 1 = s64 (tv * 2)" by (simp add: shl64_def)
      also have "\<dots> = s64 ((2 ^ m - 1) * 2 ^ j * 2)" unfolding tvj by (rule s64_mult_left)
      also have "(2 ^ m - 1) * 2 ^ j * 2 = (2 ^ m - 1) * (2::int) ^ Suc j" by simp
      finally have sh: "shl64 tv 1 = s64 ((2 ^ m - 1) * 2 ^ Suc j)" .
      have n: "Suc j + m \<le> 63 \<longrightarrow> s32 (n + 1) = 1 + int (Suc j)" using False by simp
      from IH [OF rec] pos sh n
      obtain k where "Suc j \<le> k" "k + m \<le> 63" by blast
      with False have False by linarith
      then show ?thesis ..
    qed
  qed
qed

lemma bucketsNeeded_loop_result:
  assumes "bucketsNeeded_loop maxValue (2 ^ m - 1) 1 = Some r" "1 \<le> m" "m \<le> 63" "0 < maxValue"
  shows "\<exists>k. k + m \<le> 63 \<and> r = 1 + int k \<and> maxValue \<le> (2 ^ m - 1) * 2 ^ k"
proof -
  have "0 < (2 ^ m - 1 :: int)" "(2 ^ m - 1 :: int) < 2 ^ 63"
    using ones_shifted_bound [of m 0] assms(2,3) by simp_all
  then have "s64 (2 ^ m - 1) = 2 ^ m - 1" by (intro s64_id) simp_all
  then have "(2 ^ m - 1 :: int) = s64 ((2 ^ m - 1) * 2 ^ 0)" by simp
  then have tv0: "(2 ^ m - 1 :: int) = s64 ((2 ^ m - 1) * 2 ^ 0)" .
  have n0: "0 + m \<le> 63 \<longrightarrow> (1::int) = 1 + int 0" by simp
  from bucketsNeeded_loop_result_aux [OF assms(1,2)] assms(4)
  have "\<forall>j. 2 ^ m - 1 = s64 ((2 ^ m - 1) * 2 ^ j) \<longrightarrow>
         (j + m \<le> 63 \<longrightarrow> (1::int) = 1 + int j) \<longrightarrow>
         (\<exists>k\<ge>j. k + m \<le> 63 \<and> r = 1 + int k \<and> maxValue \<le> (2 ^ m - 1) * 2 ^ k)" by simp
  then have "2 ^ m - 1 = s64 ((2 ^ m - 1) * 2 ^ 0) \<longrightarrow>
         (0 + m \<le> 63 \<longrightarrow> (1::int) = 1 + int 0) \<longrightarrow>
         (\<exists>k\<ge>0. k + m \<le> 63 \<and> r = 1 + int k \<and> maxValue \<le> (2 ^ m - 1) * 2 ^ k)" by (rule spec)
  with tv0 n0 obtain k where "k + m \<le> 63 \<and> r = 1 + int k \<and> maxValue \<le> (2 ^ m - 1) * 2 ^ k"
    by blast
  then show ?thesis by (rule exI)
qed

lemma bucketsNeeded_loop_nonpos:
  "maxValue \<le> 0 \<Longrightarrow> 0 \<le> tv \<Longrightarrow> bucketsNeeded_loop maxValue tv n = Some n"
  by (subst bucketsNeeded_loop.simps) simp


lemma s32_pow_minus1:
  assumes "n \<le> 30"
  shows "s32 (2 ^ n - 1) = 2 ^ n - 1"
proof -
  have le: "(2::int) ^ n \<le> 2 ^ 30" using assms by (intro power_increasing) simp_all
  have pos: "(0::int) \<le> 2 ^ n - 1" by simp
  have "- (2 ^ 31) \<le> (0::int)" by simp
  then have lo: "- (2 ^ 31) \<le> (2::int) ^ n - 1" using pos by (rule order_trans)
  have "(2::int) ^ n - 1 < 2 ^ 30" using le by simp
  also have "(2::int) ^ 30 < 2 ^ 31" by simp
  finally show ?thesis using lo by (intro s32_id)
qed

lemma sigfigs_magnitude:
  assumes "1 \<le> s" "s \<le> 5"
  shows "s32 ((if ceil_log2 (s64 (2 * power_go 10 s 1)) < 1 then 1
               else ceil_log2 (s64 (2 * power_go 10 s 1))) - 1) \<in> {4, 7, 10, 14, 17}"
proof -
  define f where "f t = s32 ((if ceil_log2 (s64 (2 * power_go 10 t 1)) < 1 then 1
               else ceil_log2 (s64 (2 * power_go 10 t 1))) - 1)" for t
  have vals: "f 1 = 4" "f 2 = 7" "f 3 = 10" "f 4 = 14" "f 5 = 17"
    unfolding f_def by code_simp+
  from assms consider "s = 1" | "s = 2" | "s = 3" | "s = 4" | "s = 5" by linarith
  then have "f s \<in> {4, 7, 10, 14, 17}" using vals by cases simp_all
  then show ?thesis unfolding f_def .
qed

lemma New_fields:
  assumes "New minValue maxValue sigfigs = Some h"
  shows "subBucketHalfCountMagnitude h \<in> {4, 7, 10, 14, 17}"
    and "unitMagnitude h = (if floor_log2 minValue < 0 then 0 else floor_log2 minValue)"
    and "subBucketCount h = 2 ^ nat (subBucketHalfCountMagnitude h + 1)"
    and "subBucketHalfCount h = 2 ^ nat (subBucketHalfCountMagnitude h)"
    and "subBucketMask h = shl64 (subBucketCount h - 1) (unitMagnitude h)"
    and "bucketsNeeded_loop maxValue (subBucketCount h - 1) 1 = Some (bucketCount h)"
    and "countsLen h = s32 (s32 (bucketCount h + 1) * subBucketHalfCount h)"
    and "0 \<le> countsLen h"
    and "totalCount h = 0"
    and "counts h = replicate (nat (countsLen h)) 0"
proof -
  define shm where "shm = s32 ((if ceil_log2 (s64 (2 * power_go 10 sigfigs 1)) < 1 then 1
               else ceil_log2 (s64 (2 * power_go 10 sigfigs 1))) - 1)"
  from assms have sig: "1 \<le> sigfigs" "sigfigs \<le> 5"
    by (simp_all add: New_def split: if_splits)
  have shm: "shm \<in> {4, 7, 10, 14, 17}" unfolding shm_def using sig by (rule sigfigs_magnitude)
  have "nat (shm + 1) \<le> 30" using shm by auto
  then have sbc1: "s32 (2 ^ nat (shm + 1) - 1) = 2 ^ nat (shm + 1) - 1"
    by (rule s32_pow_minus1)
  have half: "(2::int) ^ nat (shm + 1) div 2 = 2 ^ nat shm" using shm by auto
  from assms sig obtain bc where
    loop: "bucketsNeeded_loop maxValue (2 ^ nat (shm + 1) - 1) 1 = Some bc"
    and len: "0 \<le> s32 (s32 (bc + 1) * 2 ^ nat shm)"
    and h: "h = \<lparr>lowestTrackableValue = minValue, highestTrackableValue = maxValue,
              unitMagnitude = (if floor_log2 minValue < 0 then 0 else floor_log2 minValue),
              significantFigures = sigfigs, subBucketHalfCountMagnitude = shm,
              subBucketHalfCount = 2 ^ nat shm,
              subBucketMask = shl64 (2 ^ nat (shm + 1) - 1)
                 (if floor_log2 minValue < 0 then 0 else floor_log2 minValue),
              subBucketCount = 2 ^ nat (shm + 1), bucketCount = bc,
              countsLen = s32 (s32 (bc + 1) * 2 ^ nat shm), totalCount = 0,
              counts = replicate (nat (s32 (s32 (bc + 1) * 2 ^ nat shm))) 0\<rparr>"
    unfolding New_def shm_def [symmetric] Let_def sbc1 half
    by (auto split: if_splits option.splits)
  show "subBucketHalfCountMagnitude h \<in> {4, 7, 10, 14, 17}" using shm by (simp add: h)
  show "unitMagnitude h = (if floor_log2 minValue < 0 then 0 else floor_log2 minValue)"
    by (simp add: h)
  show "subBucketCount h = 2 ^ nat (subBucketHalfCountMagnitude h + 1)" by (simp add: h)
  show "subBucketHalfCount h = 2 ^ nat (subBucketHalfCountMagnitude h)" by (simp add: h)
  show "subBucketMask h = shl64 (subBucketCount h - 1) (unitMagnitude h)" by (simp add: h)
  show "bucketsNeeded_loop maxValue (subBucketCount h - 1) 1 = Some (bucketCount h)"
    using loop by (simp add: h)
  show "countsLen h = s32 (s32 (bucketCount h + 1) * subBucketHalfCount h)" by (simp add: h)
  show "0 \<le> countsLen h" using len by (simp add: h)
  show "totalCount h = 0" by (simp add: h)
  show "counts h = replicate (nat (countsLen h)) 0" by (simp add: h)
qed

lemma neg_pow_le: "0 \<le> x \<Longrightarrow> - (2 ^ n) \<le> (x::int)"
proof -
  assume "0 \<le> x"
  have "- (2 ^ n) \<le> (0::int)" by simp
  then show ?thesis using \<open>0 \<le> x\<close> by (rule order_trans)
qed

lemma shl64_small:
  assumes "0 \<le> k" "k < 64" "- (2 ^ 63) \<le> x * 2 ^ nat k" "x * 2 ^ nat k < 2 ^ 63"
  shows "shl64 x k = x * 2 ^ nat k"
  using assms by (simp add: shl64_def s64_id)

lemma New_geometry:
  assumes new: "New minValue maxValue sigfigs = Some h"
    and fits: "unitMagnitude h + subBucketHalfCountMagnitude h + 1 \<le> 63"
  shows "wf_geometry h"
    and "0 < maxValue \<Longrightarrow>
          maxValue \<le> (subBucketCount h - 1) * 2 ^ nat (bucketCount h - 1)
          \<and> bucketCount h + subBucketHalfCountMagnitude h \<le> 63"
proof -
  note f = New_fields [OF new]
  let ?um = "unitMagnitude h" and ?shm = "subBucketHalfCountMagnitude h"
  have shm: "0 \<le> ?shm" "?shm \<le> 24" "?shm \<le> 17" using f(1) by auto
  have um: "0 \<le> ?um" using f(2) by simp
  have m: "1 \<le> nat (?shm + 1)" "nat (?shm + 1) \<le> 63" using shm by simp_all
  have mask_fit: "nat ?um + nat (?shm + 1) \<le> 63" using fits um shm by simp
  have mask: "subBucketMask h = (subBucketCount h - 1) * 2 ^ nat ?um"
    unfolding f(5) f(3)
  proof (rule shl64_small)
    show "0 \<le> ?um" by (rule um)
    show "?um < 64" using fits shm(1) by simp
    show "(2 ^ nat (?shm + 1) - 1) * 2 ^ nat ?um < (2::int) ^ 63"
      using ones_shifted_bound(2) [OF m(1) mask_fit] .
    show "- (2 ^ 63) \<le> (2 ^ nat (?shm + 1) - 1) * (2::int) ^ nat ?um"
      using ones_shifted_bound(1) [OF m(1) mask_fit] by (intro neg_pow_le) simp
  qed
  have bc: "1 \<le> bucketCount h \<and> bucketCount h \<le> 63
      \<and> (0 < maxValue \<longrightarrow> maxValue \<le> (subBucketCount h - 1) * 2 ^ nat (bucketCount h - 1)
           \<and> bucketCount h + ?shm \<le> 63)"
  proof (cases "0 < maxValue")
    case True
    from bucketsNeeded_loop_result [OF f(6) [unfolded f(3)] m True]
    obtain k where k: "k + nat (?shm + 1) \<le> 63" "bucketCount h = 1 + int k"
      "maxValue \<le> (2 ^ nat (?shm + 1) - 1) * 2 ^ k" by blast
    have "int k + (?shm + 1) \<le> 63" using k(1) shm(1) by linarith
    with k(2,3) True shm(1) show ?thesis by (simp add: f(3))
  next
    case False
    have "(0::int) \<le> 2 ^ nat (?shm + 1) - 1" by simp
    with False f(6) [unfolded f(3)] have "bucketCount h = 1"
      by (simp add: bucketsNeeded_loop_nonpos)
    with False show ?thesis by simp
  qed
  have shc: "0 < subBucketHalfCount h" "subBucketHalfCount h \<le> 2 ^ 17"
    using f(4) shm power_increasing [of "nat ?shm" 17 "2::int"] by simp_all
  have b1: "s32 (bucketCount h + 1) = bucketCount h + 1" using bc by (intro s32_id) simp_all
  have "(bucketCount h + 1) * subBucketHalfCount h \<le> 64 * 2 ^ 17"
    using bc shc by (intro mult_mono) simp_all
  moreover have "0 \<le> (bucketCount h + 1) * subBucketHalfCount h" using bc shc by simp
  ultimately have "s32 ((bucketCount h + 1) * subBucketHalfCount h)
      = (bucketCount h + 1) * subBucketHalfCount h"
    by (intro s32_id) simp_all
  then have len: "countsLen h = (bucketCount h + 1) * subBucketHalfCount h"
    using f(7) b1 by simp
  have alloc: "int (length (counts h)) = countsLen h" using f(8,10) by simp
  show "wf_geometry h"
    unfolding wf_geometry_def using um shm fits f(3,4) mask bc len alloc by simp
  show "maxValue \<le> (subBucketCount h - 1) * 2 ^ nat (bucketCount h - 1)
          \<and> bucketCount h + subBucketHalfCountMagnitude h \<le> 63" if "0 < maxValue"
    using bc that by simp
qed

lemma bitlen_floor_log2: "1 \<le> x \<Longrightarrow> 0 \<le> floor_log2 x"
  using bitlen_gt_iff [of 0 x] by (simp add: floor_log2_def)

lemma getBucketIndex_zero:
  assumes "wf_geometry h" "0 \<le> v" "v < 2 ^ 63"
    and "bitlen v \<le> unitMagnitude h + subBucketHalfCountMagnitude h + 1"
  shows "getBucketIndex h v = 0"
  using getBucketIndex_eq [OF assms(1-3)] assms(4) by simp

subsection \<open>Recording one value\<close>

text \<open>
  C3. \<^verbatim>\<open>RecordValues(v, n)\<close> on a histogram whose \<^verbatim>\<open>counts\<close> slice has the length
  \<^verbatim>\<open>countsLen\<close> (as \<^verbatim>\<open>New\<close> allocates it): if the counts index computed for \<open>v\<close> lies
  outside \<open>[0, countsLen)\<close> the call returns the error and the histogram is unchanged;
  otherwise it returns no error, the count at that index has grown by \<open>n\<close>, every other
  count and the geometry are as before, and \<^verbatim>\<open>totalCount\<close> has grown by \<open>n\<close> (both
  additions are \<^verbatim>\<open>int64\<close> additions).
\<close>

theorem RecordValues_effect:
  assumes "int (length (counts h)) = countsLen h"
  shows "(countsIndexFor h v < 0 \<or> countsLen h \<le> countsIndexFor h v \<longrightarrow>
            RecordValues h v n = Some (h, Some (ValueTooLarge v)))
       \<and> (0 \<le> countsIndexFor h v \<and> countsIndexFor h v < countsLen h \<longrightarrow>
            RecordValues h v n =
              Some (h\<lparr>counts := (counts h)[nat (countsIndexFor h v) :=
                                    s64 (counts h ! nat (countsIndexFor h v) + n)],
                      totalCount := s64 (totalCount h + n)\<rparr>, None))"
  using assms by (simp add: RecordValues_def Let_def)

theorem RecordValues_effect_witness:
  "int (length (counts h31)) = countsLen h31
   \<and> countsLen h31 \<le> countsIndexFor h31 1000
   \<and> RecordValues h31 1000 3 = Some (h31, Some (ValueTooLarge 1000))
   \<and> 0 \<le> countsIndexFor h31 5 \<and> countsIndexFor h31 5 < countsLen h31
   \<and> RecordValues h31 5 3 = Some (h31\<lparr>counts := (counts h31)[5 := 3], totalCount := 3\<rparr>, None)"
proof -
  have len: "int (length (counts h31)) = countsLen h31" by code_simp
  have big: "countsLen h31 \<le> countsIndexFor h31 1000" by code_simp
  have small: "0 \<le> countsIndexFor h31 5" "countsIndexFor h31 5 < countsLen h31" by code_simp+
  have val: "Some (h31\<lparr>counts := (counts h31)[nat (countsIndexFor h31 5) :=
                                    s64 (counts h31 ! nat (countsIndexFor h31 5) + 3)],
                      totalCount := s64 (totalCount h31 + 3)\<rparr>, None :: error option)
      = Some (h31\<lparr>counts := (counts h31)[5 := 3], totalCount := 3\<rparr>, None)" by code_simp
  from RecordValues_effect [OF len, of 1000 3] big
  have "RecordValues h31 1000 3 = Some (h31, Some (ValueTooLarge 1000))" by simp
  moreover from RecordValues_effect [OF len, of 5 3] small val
  have "RecordValues h31 5 3 = Some (h31\<lparr>counts := (counts h31)[5 := 3], totalCount := 3\<rparr>, None)"
    by simp
  ultimately show ?thesis using len big small by simp
qed

subsection \<open>Values of the declared range, and values below it\<close>

text \<open>
  Where the sub-bucket mask fits an \<^verbatim>\<open>int64\<close>, a histogram that \<^verbatim>\<open>New\<close> returned records
  every value from 0 to \<^verbatim>\<open>maxValue\<close>: the values of its range, and the values below
  \<^verbatim>\<open>minValue\<close>, which the mask sends to bucket 0.
\<close>

lemma New_records_up_to_maxValue:
  assumes new: "New minValue maxValue sigfigs = Some h"
    and fits: "unitMagnitude h + subBucketHalfCountMagnitude h + 1 \<le> 63"
    and v: "0 \<le> v" "v \<le> maxValue"
  shows "RecordValue h v =
           Some (h\<lparr>counts := (counts h)[nat (countsIndexFor h v) := 1], totalCount := 1\<rparr>, None)"
    and "0 \<le> countsIndexFor h v" and "countsIndexFor h v < countsLen h"
proof -
  note wf = New_geometry(1) [OF new fits]
  let ?um = "unitMagnitude h" and ?shm = "subBucketHalfCountMagnitude h"
  have wfs: "0 \<le> ?um" "0 \<le> ?shm" "subBucketCount h = 2 ^ nat (?shm + 1)" "1 \<le> bucketCount h"
    using wf by (simp_all add: wf_geometry_def)
  show rec: "RecordValue h v =
           Some (h\<lparr>counts := (counts h)[nat (countsIndexFor h v) := 1], totalCount := 1\<rparr>, None)"
    and "0 \<le> countsIndexFor h v" and "countsIndexFor h v < countsLen h"
  proof -
    have pos: "0 < maxValue \<or> v = 0" using v by linarith
    have small: "v < 2 ^ 63 \<and> getBucketIndex h v < bucketCount h"
    proof (cases "v = 0")
      case True
      then have "getBucketIndex h v = 0"
        using getBucketIndex_eq [OF wf, of 0] wfs by simp
      with True wfs show ?thesis by simp
    next
      case False
      with pos have mpos: "0 < maxValue" by simp
      from New_geometry(2) [OF new fits mpos]
      have top: "maxValue \<le> (subBucketCount h - 1) * 2 ^ nat (bucketCount h - 1)"
        and bc: "bucketCount h + ?shm \<le> 63" by simp_all
      have "(subBucketCount h - 1) * 2 ^ nat (bucketCount h - 1)
          < 2 ^ nat (?shm + 1) * 2 ^ nat (bucketCount h - 1)"
        by (simp add: wfs(3))
      also have "\<dots> = 2 ^ nat (?shm + bucketCount h)"
        using wfs by (simp add: power_add [symmetric] nat_add_distrib [symmetric] del: power_Suc)
      finally have lt: "v < 2 ^ nat (?shm + bucketCount h)" using v(2) top by linarith
      have "(2::int) ^ nat (?shm + bucketCount h) \<le> 2 ^ 63"
        using bc by (intro power_increasing) simp_all
      with lt have v63: "v < 2 ^ 63" by linarith
      have "bitlen v \<le> int (nat (?shm + bucketCount h))" using lt by (rule bitlen_le_nat)
      then have "bitlen v \<le> ?shm + bucketCount h" using wfs by simp
      then have "getBucketIndex h v < bucketCount h"
        using getBucketIndex_eq [OF wf v(1) v63] wfs by simp
      with v63 show ?thesis by simp
    qed
    from RecordValues_ok [OF wf v(1), of 1] small New_fields(9,10) [OF new]
      countsIndexFor_range [OF wf v(1)] wf
    show "RecordValue h v =
           Some (h\<lparr>counts := (counts h)[nat (countsIndexFor h v) := 1], totalCount := 1\<rparr>, None)"
      by (simp add: RecordValue_def s64_def wf_geometry_def)
    from countsIndexFor_range [OF wf v(1)] small
    show "0 \<le> countsIndexFor h v" and "countsIndexFor h v < countsLen h" by simp_all
  qed
qed

lemma New_records_below_minValue:
  assumes new: "New minValue maxValue sigfigs = Some h"
    and fits: "unitMagnitude h + subBucketHalfCountMagnitude h + 1 \<le> 63"
    and v: "0 \<le> v" "v < minValue"
  shows "getBucketIndex h v = 0"
    and "RecordValue h v =
           Some (h\<lparr>counts := (counts h)[nat (countsIndexFor h v) := 1], totalCount := 1\<rparr>, None)"
proof -
  note wf = New_geometry(1) [OF new fits]
  let ?um = "unitMagnitude h" and ?shm = "subBucketHalfCountMagnitude h"
  have wfs: "0 \<le> ?um" "0 \<le> ?shm" "1 \<le> bucketCount h"
    using wf by (simp_all add: wf_geometry_def)
  have "1 \<le> minValue" using v by linarith
  then have um: "?um = bitlen minValue - 1"
    using New_fields(2) [OF new] bitlen_floor_log2 [of minValue] by (simp add: floor_log2_def)
  have "bitlen v \<le> bitlen minValue" using v(2) by (intro bitlen_mono) simp
  then have bl: "bitlen v \<le> ?um + ?shm + 1" using um wfs by simp
  with fits have "bitlen v \<le> 63" by simp
  then have v63: "v < 2 ^ 63" using bitlen_le_iff_power [of v 63] by simp
  show b0: "getBucketIndex h v = 0" using wf v(1) v63 bl by (rule getBucketIndex_zero)
  from RecordValues_ok [OF wf v(1) v63, of 1] b0 wfs New_fields(9,10) [OF new]
    countsIndexFor_range [OF wf v(1) v63] wf
  show "RecordValue h v =
           Some (h\<lparr>counts := (counts h)[nat (countsIndexFor h v) := 1], totalCount := 1\<rparr>, None)"
    by (simp add: RecordValue_def s64_def wf_geometry_def)
qed

text \<open>
  C1 (range fidelity: after \<^verbatim>\<open>New(lowestTrackableValue, highestTrackableValue, sigfigs)\<close> with
  \<open>1 \<le> lowestTrackableValue\<close> and \<open>sigfigs\<close> in \<open>[1,5]\<close>, \<^verbatim>\<open>RecordValue(v)\<close> succeeds for every
  \<open>v\<close> of the range). The source computes \<^verbatim>\<open>subBucketMask\<close> as
  \<^verbatim>\<open>int64(subBucketCount-1) << uint(unitMagnitude)\<close> and nothing bounds \<^verbatim>\<open>unitMagnitude\<close>.
  \<^verbatim>\<open>New(3 * 2^59, 3 * 2^59, 1)\<close> has \<^verbatim>\<open>unitMagnitude = 60\<close> and \<^verbatim>\<open>subBucketCount = 32\<close>; the
  shift overflows, the mask is negative, \<^verbatim>\<open>bitLen\<close> of a negative number is 0, the counts
  index is negative, and the histogram rejects the one value of its own range.
\<close>

theorem New_wide_rejects_own_range:
  "New (3 * 2 ^ 59) (3 * 2 ^ 59) 1 = Some h_wide
   \<and> countsIndexFor h_wide (3 * 2 ^ 59) = - 1040
   \<and> RecordValue h_wide (3 * 2 ^ 59) = Some (h_wide, Some (ValueTooLarge (3 * 2 ^ 59)))"
  by code_simp

text \<open>
  C9 (a value \<open>v\<close> with \<open>0 \<le> v < lowestTrackableValue\<close> is recorded, in bucket 0). The same
  overflow of the mask: the histogram of \<^verbatim>\<open>New(3 * 2^59, 3 * 2^59, 1)\<close> rejects 5.
\<close>

theorem New_wide_rejects_small_value:
  "New (3 * 2 ^ 59) (3 * 2 ^ 59) 1 = Some h_wide
   \<and> getBucketIndex h_wide 5 = - 65
   \<and> RecordValue h_wide 5 = Some (h_wide, Some (ValueTooLarge 5))"
  by code_simp

subsection \<open>The count invariant\<close>

lemma s64_idem: "s64 (s64 x) = s64 x"
  by (simp add: s64_def)

lemma sum_list_update_int:
  "k < length xs \<Longrightarrow> sum_list (xs[k := x]) = sum_list xs - xs ! k + (x::int)"
proof (induction xs arbitrary: k)
  case Nil
  then show ?case by simp
next
  case (Cons a xs)
  then show ?case by (cases k) simp_all
qed

lemma count_invariant_New:
  assumes "New minValue maxValue sigfigs = Some h"
  shows "count_invariant h"
  using New_fields(9,10) [OF assms] by (simp add: count_invariant_def s64_def sum_list_replicate)

lemma count_invariant_RecordValues:
  assumes "count_invariant h" "RecordValues h v n = Some (h', e)"
  shows "count_invariant h'"
proof (cases "countsIndexFor h v < 0 \<or> countsLen h \<le> countsIndexFor h v")
  case True
  with assms(2) have "h' = h" by (simp add: RecordValues_def)
  with assms(1) show ?thesis by simp
next
  case False
  let ?k = "nat (countsIndexFor h v)" and ?cs = "counts h"
  from False assms(2) have k: "?k < length ?cs"
    and h': "h' = h\<lparr>counts := ?cs[?k := s64 (?cs ! ?k + n)], totalCount := s64 (totalCount h + n)\<rparr>"
    by (auto simp: RecordValues_def Let_def split: if_splits)
  have "sum_list (?cs[?k := s64 (?cs ! ?k + n)]) = (sum_list ?cs - ?cs ! ?k) + s64 (?cs ! ?k + n)"
    using k by (rule sum_list_update_int)
  then have "s64 (sum_list (?cs[?k := s64 (?cs ! ?k + n)])) = s64 ((sum_list ?cs - ?cs ! ?k) + (?cs ! ?k + n))"
    by (simp only: s64_add_right)
  also have "\<dots> = s64 (sum_list ?cs + n)" by simp
  also have "\<dots> = s64 (s64 (sum_list ?cs) + n)" by (simp only: s64_add_left)
  also have "\<dots> = s64 (totalCount h + n)" using assms(1) by (simp add: count_invariant_def)
  finally show ?thesis by (simp add: count_invariant_def h')
qed

lemma count_invariant_RecordValue:
  "count_invariant h \<Longrightarrow> RecordValue h v = Some (h', e) \<Longrightarrow> count_invariant h'"
  unfolding RecordValue_def by (rule count_invariant_RecordValues)

lemma count_invariant_RecordValues_seq:
  "count_invariant h \<Longrightarrow> RecordValues_seq h xs = Some h' \<Longrightarrow> count_invariant h'"
proof (induction xs arbitrary: h)
  case Nil
  then show ?case by simp
next
  case (Cons x xs)
  obtain v n where x: "x = (v, n)" by (cases x)
  from Cons.prems(2) obtain h1 where r: "RecordValues h v n = Some (h1, None)"
    and rest: "RecordValues_seq h1 xs = Some h'"
    by (auto simp: x split: option.splits prod.splits)
  from count_invariant_RecordValues [OF Cons.prems(1) r] rest show ?case by (rule Cons.IH)
qed

lemma count_invariant_loop:
  assumes "RecordCorrectedValue_loop h m ei = Some r"
  shows "count_invariant h \<longrightarrow> count_invariant (fst r)"
proof (rule RecordCorrectedValue_loop.raw_induct [where P = "\<lambda>h m ei r.
     count_invariant h \<longrightarrow> count_invariant (fst r)", OF _ assms])
  fix loop :: "Histogram \<Rightarrow> int \<Rightarrow> int \<Rightarrow> (Histogram \<times> error option) option"
  fix h m ei r
  assume IH: "\<And>h m ei r. loop h m ei = Some r \<Longrightarrow> count_invariant h \<longrightarrow> count_invariant (fst r)"
    and body: "(if ei \<le> m then
       (case RecordValue h m of None \<Rightarrow> None
        | Some (h', err) \<Rightarrow> if err \<noteq> None then Some (h', err)
            else loop h' (s64 (m - ei)) ei)
     else Some (h, None)) = Some r"
  show "count_invariant h \<longrightarrow> count_invariant (fst r)"
  proof
    assume inv: "count_invariant h"
    show "count_invariant (fst r)"
    proof (cases "ei \<le> m")
      case False
      with body inv show ?thesis by auto
    next
      case True
      with body obtain h1 e1 where r: "RecordValue h m = Some (h1, e1)"
        and rest: "(if e1 \<noteq> None then Some (h1, e1) else loop h1 (s64 (m - ei)) ei) = Some r"
        by (auto split: option.splits)
      have inv1: "count_invariant h1" using inv r by (rule count_invariant_RecordValue)
      show ?thesis
      proof (cases "e1 = None")
        case True
        with rest have "loop h1 (s64 (m - ei)) ei = Some r" by simp
        from IH [OF this] inv1 show ?thesis by simp
      next
        case False
        with rest inv1 show ?thesis by auto
      qed
    qed
  qed
qed

lemma count_invariant_RecordCorrectedValue:
  assumes "count_invariant h" "RecordCorrectedValue h v ei = Some (h', e)"
  shows "count_invariant h'"
proof -
  from assms(2) obtain h1 e1 where r: "RecordValue h v = Some (h1, e1)"
    and rest: "(if e1 \<noteq> None then Some (h1, e1)
                else if ei \<le> 0 \<or> v \<le> ei then Some (h1, None)
                else RecordCorrectedValue_loop h1 (s64 (v - ei)) ei) = Some (h', e)"
    by (auto simp: RecordCorrectedValue_def split: option.splits)
  have inv1: "count_invariant h1" using assms(1) r by (rule count_invariant_RecordValue)
  show ?thesis
  proof (cases "e1 \<noteq> None \<or> ei \<le> 0 \<or> v \<le> ei")
    case True
    with rest have "h' = h1" by (auto split: if_splits)
    with inv1 show ?thesis by simp
  next
    case False
    with rest have "RecordCorrectedValue_loop h1 (s64 (v - ei)) ei = Some (h', e)" by simp
    from count_invariant_loop [OF this] inv1 show ?thesis by simp
  qed
qed

lemma count_invariant_Reset: "count_invariant (Reset h)"
proof -
  have "sum_list (map (\<lambda>_. 0::int) xs) = 0" for xs :: "int list" by (induction xs) simp_all
  then show ?thesis by (simp add: count_invariant_def Reset_def s64_def)
qed

subsection \<open>Corrected recording\<close>

lemma steps_down_unfold:
  assumes "0 < ei" "ei \<le> m"
  shows "map (\<lambda>k. m - int k * ei) [0 ..< nat (m div ei)]
       = m # map (\<lambda>k. (m - ei) - int k * ei) [0 ..< nat ((m - ei) div ei)]"
proof -
  have "m div ei = (m - ei + ei) div ei" by simp
  also have "\<dots> = (m - ei) div ei + 1" using assms(1) by (subst div_add_self2) simp_all
  finally have d: "m div ei = (m - ei) div ei + 1" .
  have nonneg: "0 \<le> (m - ei) div ei" using assms by (simp add: pos_imp_zdiv_nonneg_iff)
  define n where "n = nat ((m - ei) div ei)"
  have n: "nat (m div ei) = Suc n" using d nonneg by (simp add: n_def)
  have "[0 ..< Suc n] = 0 # map Suc [0 ..< n]"
    by (simp add: upt_conv_Cons map_Suc_upt del: upt_Suc)
  then have "map (\<lambda>k. m - int k * ei) [0 ..< Suc n]
      = m # map (\<lambda>k. m - int (Suc k) * ei) [0 ..< n]"
    by (simp add: comp_def del: upt_Suc)
  also have "(\<lambda>k. m - int (Suc k) * ei) = (\<lambda>k. (m - ei) - int k * ei)"
    by (simp add: algebra_simps)
  finally show ?thesis by (simp only: n n_def)
qed

lemma missing_values_eq:
  assumes "0 < ei" "ei < v"
  shows "missing_values v ei = map (\<lambda>k. (v - ei) - int k * ei) [0 ..< nat ((v - ei) div ei)]"
proof -
  have "1 \<le> v div ei" using assms div_ge_int [of ei 1 v] by simp
  then have "[0 ..< nat (v div ei)] = 0 # [1 ..< nat (v div ei)]"
    by (simp add: upt_conv_Cons)
  then have "map (\<lambda>k. v - int k * ei) [0 ..< nat (v div ei)]
      = v # map (\<lambda>k. v - int k * ei) [1 ..< nat (v div ei)]" by simp
  with steps_down_unfold [of ei v] assms show ?thesis by (simp add: missing_values_def)
qed

lemma RecordCorrectedValue_loop_eq:
  assumes "0 < ei" "0 \<le> m" "m < 2 ^ 63"
  shows "RecordCorrectedValue_loop h m ei
       = record_each h (map (\<lambda>k. m - int k * ei) [0 ..< nat (m div ei)])"
  using assms
proof (induction "nat m" arbitrary: m h rule: less_induct)
  case less
  show ?case
  proof (cases "ei \<le> m")
    case False
    then have "m div ei = 0" using less.prems by (simp add: div_pos_pos_trivial)
    with False show ?thesis by (subst RecordCorrectedValue_loop.simps) simp
  next
    case True
    have range: "0 \<le> m - ei" "m - ei < 2 ^ 63" using True less.prems by simp_all
    then have s: "s64 (m - ei) = m - ei" using neg_pow_le [of "m - ei" 63] by (intro s64_id) simp_all
    have smaller: "nat (m - ei) < nat m" using True less.prems by simp
    have IH: "RecordCorrectedValue_loop h' (m - ei) ei
        = record_each h' (map (\<lambda>k. (m - ei) - int k * ei) [0 ..< nat ((m - ei) div ei)])" for h'
      using less.hyps [OF smaller less.prems(1) range] .
    show ?thesis
      unfolding steps_down_unfold [OF less.prems(1) True]
      by (subst RecordCorrectedValue_loop.simps) (simp add: True s IH split: option.splits)
  qed
qed

lemma RecordCorrectedValue_eq:
  assumes "v < 2 ^ 63"
  shows "RecordCorrectedValue h v ei = record_each h (v # missing_values v ei)"
proof (cases "0 < ei \<and> ei < v")
  case False
  then show ?thesis
    by (auto simp: RecordCorrectedValue_def missing_values_def split: option.splits)
next
  case True
  then have range: "0 \<le> v - ei" "v - ei < 2 ^ 63" using assms by simp_all
  then have s: "s64 (v - ei) = v - ei" using neg_pow_le [of "v - ei" 63] by (intro s64_id) simp_all
  have "RecordCorrectedValue_loop h' (v - ei) ei = record_each h' (missing_values v ei)" for h'
    using RecordCorrectedValue_loop_eq [OF _ range, of ei h'] True missing_values_eq [of ei v]
    by simp
  with True show ?thesis
    by (auto simp: RecordCorrectedValue_def s split: option.splits)
qed

lemma RecordValues_returns:
  "int (length (counts h)) = countsLen h \<Longrightarrow> \<exists>h' e. RecordValues h v n = Some (h', e)"
  by (simp add: RecordValues_def Let_def)

lemma RecordValues_keeps:
  assumes "RecordValues h v n = Some (h', e)"
  shows "length (counts h') = length (counts h)" and "countsLen h' = countsLen h"
    and "unitMagnitude h' = unitMagnitude h"
    and "subBucketHalfCountMagnitude h' = subBucketHalfCountMagnitude h"
    and "subBucketHalfCount h' = subBucketHalfCount h"
    and "subBucketCount h' = subBucketCount h"
    and "subBucketMask h' = subBucketMask h"
    and "bucketCount h' = bucketCount h"
  using assms by (auto simp: RecordValues_def Let_def split: if_splits)

lemma record_each_returns:
  "int (length (counts h)) = countsLen h \<Longrightarrow> \<exists>h' e. record_each h xs = Some (h', e)"
proof (induction xs arbitrary: h)
  case Nil
  then show ?case by simp
next
  case (Cons x xs)
  from RecordValues_returns [OF Cons.prems, of x 1]
  obtain h1 e1 where r: "RecordValue h x = Some (h1, e1)" by (auto simp: RecordValue_def)
  then have "int (length (counts h1)) = countsLen h1"
    using Cons.prems RecordValues_keeps(1,2) [of h x 1 h1 e1] by (simp add: RecordValue_def)
  from Cons.IH [OF this] r show ?case by (cases "e1 = None") auto
qed

text \<open>
  C7. \<^verbatim>\<open>RecordCorrectedValue(v, expectedInterval)\<close> records \<open>v\<close> and then the missing values
  \<open>v - expectedInterval\<close>, \<open>v - 2 * expectedInterval\<close>, ... down to but not below
  \<open>expectedInterval\<close> (none unless \<open>expectedInterval > 0\<close> and \<open>v > expectedInterval\<close>), one
  occurrence each, in this order; it stops at the first recording that fails and returns
  that error with the histogram as the earlier recordings left it. On a histogram whose
  \<^verbatim>\<open>counts\<close> slice has the length \<^verbatim>\<open>countsLen\<close> the call returns. (\<open>v\<close> is an \<^verbatim>\<open>int64\<close>.)
\<close>

theorem RecordCorrectedValue_records_missing_values:
  assumes "v < 2 ^ 63"
  shows "RecordCorrectedValue h v expectedInterval
           = record_each h (v # missing_values v expectedInterval)
       \<and> (int (length (counts h)) = countsLen h \<longrightarrow>
            (\<exists>h' e. RecordCorrectedValue h v expectedInterval = Some (h', e)))"
  using RecordCorrectedValue_eq [OF assms, of h expectedInterval]
    record_each_returns [of h "v # missing_values v expectedInterval"]
  by (simp del: record_each.simps)

theorem RecordCorrectedValue_records_missing_values_witness:
  "(20::int) < 2 ^ 63 \<and> int (length (counts h31)) = countsLen h31
   \<and> missing_values 20 5 = [15, 10, 5]
   \<and> record_each h31 [20, 15, 10, 5] = Some (h31_b, None)
   \<and> RecordCorrectedValue h31 20 5 = Some (h31_b, None)
   \<and> missing_values 40 5 = [35, 30, 25, 20, 15, 10, 5]
   \<and> RecordCorrectedValue h31 40 5 = Some (h31, Some (ValueTooLarge 40))"
proof -
  have v: "(20::int) < 2 ^ 63" "(40::int) < 2 ^ 63" by simp_all
  have len: "int (length (counts h31)) = countsLen h31" by code_simp
  have mv: "missing_values 20 5 = [15, 10, 5]" "missing_values 40 5 = [35, 30, 25, 20, 15, 10, 5]"
    by code_simp+
  have re: "record_each h31 [20, 15, 10, 5] = Some (h31_b, None)"
    "record_each h31 [40, 35, 30, 25, 20, 15, 10, 5] = Some (h31, Some (ValueTooLarge 40))"
    by code_simp+
  from RecordCorrectedValue_records_missing_values [OF v(1), of h31 5]
    RecordCorrectedValue_records_missing_values [OF v(2), of h31 5] mv re len
  show ?thesis by simp
qed

subsection \<open>Merge writes only its receiver\<close>

lemma Merge_loop_preserves:
  assumes run: "Merge_loop st hp fp i d = Some r"
    and pres: "\<And>h v n h' e. Q h \<Longrightarrow> RecordValues h v n = Some (h', e) \<Longrightarrow> Q h'"
  shows "(\<forall>p. p \<noteq> hp \<longrightarrow> fst r p = st p)
       \<and> (\<forall>a. st hp = Some a \<longrightarrow> Q a \<longrightarrow> (\<exists>a'. fst r hp = Some a' \<and> Q a'))"
proof (rule Merge_loop.raw_induct [where P = "\<lambda>st hp fp i d r.
       (\<forall>p. p \<noteq> hp \<longrightarrow> fst r p = st p)
       \<and> (\<forall>a. st hp = Some a \<longrightarrow> Q a \<longrightarrow> (\<exists>a'. fst r hp = Some a' \<and> Q a'))", OF _ run])
  fix loop :: "store \<Rightarrow> nat \<Rightarrow> nat \<Rightarrow> rIterator \<Rightarrow> int \<Rightarrow> (store \<times> int) option"
  fix st hp fp i d r
  assume IH: "\<And>st hp fp i d r. loop st hp fp i d = Some r \<Longrightarrow>
       (\<forall>p. p \<noteq> hp \<longrightarrow> fst r p = st p)
       \<and> (\<forall>a. st hp = Some a \<longrightarrow> Q a \<longrightarrow> (\<exists>a'. fst r hp = Some a' \<and> Q a'))"
    and body: "(case st fp of None \<Rightarrow> None
       | Some from \<Rightarrow>
           (case rIterator_next from i of None \<Rightarrow> None
            | Some (ok, i') \<Rightarrow>
                if ok then
                  (let v = valueFromIdx (iterator_r i'); c = countAtIdx (iterator_r i')
                   in case st hp of None \<Rightarrow> None
                      | Some h \<Rightarrow>
                          (case RecordValues h v c of None \<Rightarrow> None
                           | Some (h', err) \<Rightarrow>
                               loop (st(hp := Some h')) hp fp i'
                                 (if err \<noteq> None then s64 (d + c) else d)))
                else Some (st, d))) = Some r"
  show "(\<forall>p. p \<noteq> hp \<longrightarrow> fst r p = st p)
       \<and> (\<forall>a. st hp = Some a \<longrightarrow> Q a \<longrightarrow> (\<exists>a'. fst r hp = Some a' \<and> Q a'))"
  proof -
    from body obtain "from" ok i' where fp: "st fp = Some from"
      and nxt: "rIterator_next from i = Some (ok, i')"
      by (auto split: option.splits)
    show ?thesis
    proof (cases ok)
      case False
      with body fp nxt have "r = (st, d)" by simp
      then show ?thesis by simp
    next
      case True
      with body fp nxt obtain h h' err where hp: "st hp = Some h"
        and rv: "RecordValues h (valueFromIdx (iterator_r i')) (countAtIdx (iterator_r i')) = Some (h', err)"
        and rec: "loop (st(hp := Some h')) hp fp i'
                    (if err \<noteq> None then s64 (d + countAtIdx (iterator_r i')) else d) = Some r"
        by (auto simp: Let_def split: option.splits)
      from IH [OF rec]
      have frame: "\<forall>p. p \<noteq> hp \<longrightarrow> fst r p = (st(hp := Some h')) p"
        and keep: "\<forall>a. (st(hp := Some h')) hp = Some a \<longrightarrow> Q a \<longrightarrow> (\<exists>a'. fst r hp = Some a' \<and> Q a')"
        by blast+
      from frame have "\<forall>p. p \<noteq> hp \<longrightarrow> fst r p = st p" by simp
      moreover have "\<exists>a'. fst r hp = Some a' \<and> Q a'" if "st hp = Some a" "Q a" for a
      proof -
        from that hp have "Q h" by simp
        then have "Q h'" using rv by (rule pres)
        with keep show ?thesis by simp
      qed
      ultimately show ?thesis by blast
    qed
  qed
qed

lemma Merge_preserves:
  assumes run: "Merge st hp fp = Some (st', d)"
    and pres: "\<And>h v n h' e. Q h \<Longrightarrow> RecordValues h v n = Some (h', e) \<Longrightarrow> Q h'"
  shows "\<forall>p. p \<noteq> hp \<longrightarrow> st' p = st p"
    and "st hp = Some a \<Longrightarrow> Q a \<Longrightarrow> \<exists>a'. st' hp = Some a' \<and> Q a'"
proof -
  from run have loop: "Merge_loop st hp fp new_rIterator 0 = Some (st', d)"
    by (simp add: Merge_def split: option.splits)
  have main: "(\<forall>p. p \<noteq> hp \<longrightarrow> fst (st', d) p = st p)
       \<and> (\<forall>a. st hp = Some a \<longrightarrow> Q a \<longrightarrow> (\<exists>a'. fst (st', d) hp = Some a' \<and> Q a'))"
    using loop
  proof (rule Merge_loop_preserves)
    fix h v n h' e
    assume "Q h" "RecordValues h v n = Some (h', e)"
    then show "Q h'" by (rule pres)
  qed
  from main show "\<forall>p. p \<noteq> hp \<longrightarrow> st' p = st p" by simp
  from main show "\<exists>a'. st' hp = Some a' \<and> Q a'" if "st hp = Some a" "Q a"
    using that by simp
qed

text \<open>
  C2. \<^verbatim>\<open>totalCount\<close> is the (\<^verbatim>\<open>int64\<close>) sum of \<^verbatim>\<open>counts\<close> in every histogram that \<^verbatim>\<open>New\<close>
  returns, and every operation that returns keeps it so: \<^verbatim>\<open>RecordValues\<close>,
  \<^verbatim>\<open>RecordValue\<close>, \<^verbatim>\<open>RecordCorrectedValue\<close> (with or without an error), any sequence of
  recordings, \<^verbatim>\<open>Reset\<close>, and \<^verbatim>\<open>Merge\<close> for its receiver.
\<close>

theorem count_invariant_preserved:
  "(New minValue maxValue sigfigs = Some h0 \<longrightarrow> count_invariant h0)
   \<and> (count_invariant h \<longrightarrow>
        (RecordValues h v n = Some (h', e) \<longrightarrow> count_invariant h')
      \<and> (RecordValue h v = Some (h', e) \<longrightarrow> count_invariant h')
      \<and> (RecordCorrectedValue h v expectedInterval = Some (h', e) \<longrightarrow> count_invariant h')
      \<and> (RecordValues_seq h xs = Some h' \<longrightarrow> count_invariant h')
      \<and> count_invariant (Reset h)
      \<and> (st hp = Some h \<longrightarrow> Merge st hp fp = Some (st', d) \<longrightarrow>
            (\<exists>a. st' hp = Some a \<and> count_invariant a)))"
proof (intro conjI impI)
  assume "New minValue maxValue sigfigs = Some h0"
  then show "count_invariant h0" by (rule count_invariant_New)
next
  assume "count_invariant h" "RecordValues h v n = Some (h', e)"
  then show "count_invariant h'" by (rule count_invariant_RecordValues)
next
  assume "count_invariant h" "RecordValue h v = Some (h', e)"
  then show "count_invariant h'" by (rule count_invariant_RecordValue)
next
  assume "count_invariant h" "RecordCorrectedValue h v expectedInterval = Some (h', e)"
  then show "count_invariant h'" by (rule count_invariant_RecordCorrectedValue)
next
  assume "count_invariant h" "RecordValues_seq h xs = Some h'"
  then show "count_invariant h'" by (rule count_invariant_RecordValues_seq)
next
  show "count_invariant (Reset h)" by (rule count_invariant_Reset)
next
  assume inv: "count_invariant h" and hp: "st hp = Some h"
    and run: "Merge st hp fp = Some (st', d)"
  from run count_invariant_RecordValues hp inv
  show "\<exists>a. st' hp = Some a \<and> count_invariant a" by (rule Merge_preserves(2))
qed

theorem count_invariant_preserved_witness:
  "New 1 31 1 = Some h31 \<and> count_invariant h31
   \<and> RecordValues h31 5 3 = Some (h31_a, None) \<and> count_invariant h31_a
   \<and> RecordCorrectedValue h31 20 5 = Some (h31_b, None) \<and> count_invariant h31_b
   \<and> count_invariant (Reset h31_a)
   \<and> store_ab 0 = Some h31_a \<and> map_option snd (Merge store_ab 0 1) = Some 0
   \<and> (\<exists>st'. Merge store_ab 0 1 = Some (st', 0) \<and> (\<exists>a. st' 0 = Some a \<and> count_invariant a))"
proof -
  have new: "New 1 31 1 = Some h31" by code_simp
  have a: "RecordValues h31 5 3 = Some (h31_a, None)" by code_simp
  have b: "RecordCorrectedValue h31 20 5 = Some (h31_b, None)" by code_simp
  have st: "store_ab 0 = Some h31_a" by code_simp
  have m: "map_option snd (Merge store_ab 0 1) = Some 0" by code_simp
  then obtain st' where m': "Merge store_ab 0 1 = Some (st', 0)" by auto
  have i0: "count_invariant h31"
    using count_invariant_preserved [where minValue = 1 and maxValue = 31 and sigfigs = 1
        and ?h0.0 = h31] new by simp
  have ia: "count_invariant h31_a" and ib: "count_invariant h31_b"
    using count_invariant_preserved [where h = h31 and v = 5 and n = 3 and h' = h31_a and e = None]
      count_invariant_preserved [where h = h31 and v = 20 and expectedInterval = 5 and h' = h31_b
        and e = None] i0 a b by simp_all
  have ir: "count_invariant (Reset h31_a)"
    using count_invariant_preserved [where h = h31_a] ia by simp
  have "\<exists>a. st' 0 = Some a \<and> count_invariant a"
    using count_invariant_preserved [where h = h31_a and st = store_ab and hp = 0 and fp = 1
        and st' = st' and d = 0] ia st m' by simp
  with new a b st m m' i0 ia ib ir show ?thesis by blast
qed

subsection \<open>Quantiles\<close>

text \<open>
  C5 (monotonic quantiles: \<open>q1 \<le> q2\<close> implies
  \<^verbatim>\<open>ValueAtQuantile(q1)\<close> \<open>\<le>\<close> \<^verbatim>\<open>ValueAtQuantile(q2)\<close>). The count to reach is
  \<^verbatim>\<open>int64(((q / 100) * float64(h.totalCount)) + 0.5)\<close>. With \<^verbatim>\<open>totalCount = 2^52 + 1\<close> and
  \<open>q = 100\<close> the sum \<open>2\<^sup>5\<^sup>2 + 1.5\<close> is not a \<^verbatim>\<open>float64\<close>; it lies half way between
  \<open>2\<^sup>5\<^sup>2 + 1\<close> and \<open>2\<^sup>5\<^sup>2 + 2\<close> and rounds to the even one. The count to reach is then
  one more than was ever recorded, the loop runs out of slots, and the result is 0. At
  \<open>q = 50\<close> the arithmetic is exact and the result is the recorded value 1.
\<close>

theorem ValueAtQuantile_not_monotone:
  "New 1 31 1 = Some h31
   \<and> RecordValues h31 1 (2 ^ 52 + 1) = Some (h31_heavy, None)
   \<and> ValueAtQuantile h31_heavy 50 = Some 1
   \<and> ValueAtQuantile h31_heavy 100 = Some 0"
  by code_simp

end
